theory Spec2Isabelle
  imports Main
begin

section \<open>Strings of the source\<close>

text \<open>
  A string of the source is modelled by the list of its code units, here the 8-bit
  characters of HOL. The operations below are the ones the source calls on strings:
  \<^verbatim>\<open>includes\<close>, \<open>trim\<close>, \<open>toUpperCase\<close>, \<open>split\<close> and \<open>replace\<close> with a global
  pattern. Case mapping is written out for the ASCII letters; every other unit is left
  in place (the source's mapping sends no unit outside ASCII to a letter of A..E, the
  only units the normalization of answers keeps).
\<close>

fun startsWith :: "'a list \<Rightarrow> 'a list \<Rightarrow> bool" where
  "startsWith s [] = True"
| "startsWith [] (p # ps) = False"
| "startsWith (c # cs) (p # ps) = (c = p \<and> startsWith cs ps)"

fun includes_js :: "'a list \<Rightarrow> 'a list \<Rightarrow> bool" where
  "includes_js [] sub = (sub = [])"
| "includes_js (c # cs) sub = (startsWith (c # cs) sub \<or> includes_js cs sub)"

definition isWhiteSpace :: "char \<Rightarrow> bool" where
  "isWhiteSpace c \<longleftrightarrow>
     c \<in> set [CHR 0x09, CHR 0x0A, CHR 0x0B, CHR 0x0C, CHR 0x0D, CHR 0x20, CHR 0xA0]"

definition trim :: "string \<Rightarrow> string" where
  "trim s = rev (dropWhile isWhiteSpace (rev (dropWhile isWhiteSpace s)))"

definition toUpperCase_char :: "char \<Rightarrow> char" where
  "toUpperCase_char c =
     (let n = (of_char c :: nat) in if 97 \<le> n \<and> n \<le> 122 then char_of (n - 32) else c)"

definition toUpperCase :: "string \<Rightarrow> string" where
  "toUpperCase s = map toUpperCase_char s"

text \<open>\<^verbatim>\<open>s.replace(/[^A-E]/g, '')\<close>: every unit outside A..E is deleted.\<close>

definition keepAtoE :: "string \<Rightarrow> string" where
  "keepAtoE s = filter (\<lambda>c. c \<in> set ''ABCDE'') s"

section \<open>Records of the result store\<close>

text \<open>
  The interface \<^verbatim>\<open>McqData\<close>. The optional properties \<^verbatim>\<open>choiceE\<close> and
  \<^verbatim>\<open>passage\<close> are options, \<open>None\<close> standing for \<^verbatim>\<open>undefined\<close>.
\<close>

record McqData =
  id_mcq :: string
  question :: string
  choiceA :: string
  choiceB :: string
  choiceC :: string
  choiceD :: string
  choiceE :: "string option"
  correctAnswer :: string
  passage :: "string option"

text \<open>
  An element of the parsed response, typed by the response schema \<^verbatim>\<open>mcqSchema\<close>: five
  required strings and three nullable ones, \<open>None\<close> standing for a property that is
  absent or null.
\<close>

record raw_item =
  raw_question :: string
  raw_choiceA :: string
  raw_choiceB :: string
  raw_choiceC :: string
  raw_choiceD :: string
  raw_choiceE :: "string option"
  raw_correctAnswer :: "string option"
  raw_passage :: "string option"

section \<open>The extraction client\<close>

text \<open>
  \<^verbatim>\<open>x || undefined\<close> on a nullable string: the empty string is falsy.
\<close>

definition orUndefined :: "string option \<Rightarrow> string option" where
  "orUndefined x = (case x of None \<Rightarrow> None | Some s \<Rightarrow> if s = [] then None else Some s)"

text \<open>
  \<^verbatim>\<open>item.correctAnswer ? item.correctAnswer.trim().toUpperCase().replace(/[^A-E]/g, '') : ''\<close>
\<close>

definition normalizeCorrectAnswer :: "string option \<Rightarrow> string" where
  "normalizeCorrectAnswer x =
     (case x of
        None \<Rightarrow> []
      | Some s \<Rightarrow> if s = [] then [] else keepAtoE (toUpperCase (trim s)))"

text \<open>
  The arrow function of \<^verbatim>\<open>parsed.map\<close>; the fresh identifier of
  \<^verbatim>\<open>crypto.randomUUID()\<close> is an argument.
\<close>

definition postProcessItem :: "string \<Rightarrow> raw_item \<Rightarrow> McqData" where
  "postProcessItem uuid item =
     \<lparr> id_mcq = uuid,
       question = raw_question item,
       choiceA = raw_choiceA item,
       choiceB = raw_choiceB item,
       choiceC = raw_choiceC item,
       choiceD = raw_choiceD item,
       choiceE = orUndefined (raw_choiceE item),
       correctAnswer = normalizeCorrectAnswer (raw_correctAnswer item),
       passage = orUndefined (raw_passage item) \<rparr>"

subsection \<open>Errors and the external model\<close>

text \<open>
  A thrown value with its \<^verbatim>\<open>message\<close> property; \<open>None\<close> is a thrown value that has
  no such property. A \<^verbatim>\<open>TypeError\<close> raised by the engine on a property read of
  \<^verbatim>\<open>undefined\<close> carries the engine's text (here the one of V8), which no
  classification of the source looks into.
\<close>

datatype js_error = JsError (message: "string option")

definition typeError :: "string \<Rightarrow> js_error" where
  "typeError prop =
     JsError (Some (''Cannot read properties of undefined (reading '' @ [CHR 0x27] @ prop
                      @ [CHR 0x27] @ '')''))"

text \<open>
  The request of one extraction call and the response of the external model. The model
  name and the configuration are constants of the source; the prompt, which the
  language hint selects, is left out, as the outcome of the call is given from outside.
\<close>

record request =
  req_pages :: "string list"
  req_mimeType :: string

record response =
  text_of :: "string option"

text \<open>
  \<^verbatim>\<open>error.message?.includes('503') || error.message?.includes('429')\<close>
\<close>

definition isRetryable :: "js_error \<Rightarrow> bool" where
  "isRetryable error =
     (case message error of
        None \<Rightarrow> False
      | Some m \<Rightarrow> includes_js m ''503'' \<or> includes_js m ''429'')"

text \<open>
  \<^verbatim>\<open>generateWithRetry\<close>. The external call is \<open>generateContent\<close>: its outcome at the
  \<open>i\<close>-th attempt, \<open>Inl\<close> a rejection. The loop returns its outcome together with the
  delays, in milliseconds, it has waited for. A loop that ends without a return
  yields \<^verbatim>\<open>undefined\<close>, here \<open>Inr None\<close>.
\<close>

function generateWithRetry_loop ::
  "(nat \<Rightarrow> js_error + response) \<Rightarrow> nat \<Rightarrow> nat \<Rightarrow> nat list
     \<Rightarrow> (js_error + response option) \<times> nat list" where
  "generateWithRetry_loop generateContent retries i waited =
     (if i < retries then
        (case generateContent i of
           Inr r \<Rightarrow> (Inr (Some r), waited)
         | Inl error \<Rightarrow>
             if i = retries - 1 \<or> \<not> isRetryable error then (Inl error, waited)
             else generateWithRetry_loop generateContent retries (i + 1)
                    (waited @ [1000 * 2 ^ i]))
      else (Inr None, waited))"
  by pat_completeness auto
termination
  by (relation "measure (\<lambda>(g, retries, i, w). retries - i)") auto

declare generateWithRetry_loop.simps [simp del]

definition generateWithRetry ::
  "(nat \<Rightarrow> js_error + response) \<Rightarrow> nat \<Rightarrow> (js_error + response option) \<times> nat list" where
  "generateWithRetry generateContent retries =
     generateWithRetry_loop generateContent retries 0 []"

text \<open>Deleting every match of a literal pattern, left to right: \<^verbatim>\<open>s.replace(/sub/g, '')\<close>.\<close>

function removeAll_js :: "'a list \<Rightarrow> 'a list \<Rightarrow> 'a list" where
  "removeAll_js sub [] = []"
| "removeAll_js sub (c # cs) =
     (if sub \<noteq> [] \<and> startsWith (c # cs) sub
      then removeAll_js sub (drop (length sub) (c # cs))
      else c # removeAll_js sub cs)"
  by pat_completeness auto
termination
  by (relation "measure (\<lambda>(sub, s). length s)") (auto simp: neq_Nil_conv)

definition stripFences :: "string \<Rightarrow> string" where
  "stripFences rawText = trim (removeAll_js ''```'' (removeAll_js ''```json'' rawText))"

text \<open>
  Post-processing of a parsed array: the \<open>k\<close>-th element gets the \<open>k\<close>-th fresh
  identifier of this call.
\<close>

definition postProcess :: "(nat \<Rightarrow> string) \<Rightarrow> raw_item list \<Rightarrow> McqData list" where
  "postProcess uuids parsed =
     map (\<lambda>(k, item). postProcessItem (uuids k) item) (zip [0..<length parsed] parsed)"

text \<open>
  The body of the \<^verbatim>\<open>try\<close> block after the call has returned. \<open>jsonParse\<close> is
  \<^verbatim>\<open>JSON.parse\<close> read at the response schema; \<open>Inl\<close> is a syntax error, or a value
  that is no array of objects, on which \<^verbatim>\<open>parsed.map\<close> raises.
\<close>

definition parseResponse ::
  "(string \<Rightarrow> js_error + raw_item list) \<Rightarrow> (nat \<Rightarrow> string) \<Rightarrow> response option
     \<Rightarrow> js_error + McqData list" where
  "parseResponse jsonParse uuids resp =
     (case resp of
        None \<Rightarrow> Inl (typeError ''text'')
      | Some r \<Rightarrow>
          (case text_of r of
             None \<Rightarrow> Inr []
           | Some rawText \<Rightarrow>
               if rawText = [] then Inr []
               else (case jsonParse (stripFences rawText) of
                       Inl e \<Rightarrow> Inl e
                     | Inr parsed \<Rightarrow> Inr (postProcess uuids parsed))))"

definition apiKeyMissing :: js_error where
  "apiKeyMissing =
     JsError (Some ''API Key is missing. Please ensure process.env.API_KEY is configured in your environment.'')"

text \<open>
  \<^verbatim>\<open>analyzeDocumentContent\<close>, the batched client with retries: a missing key is
  thrown before the \<^verbatim>\<open>try\<close> block; whatever is raised inside it is caught, logged,
  and answered by the empty array. The second component is the list of delays waited.
\<close>

definition analyzeDocumentContent ::
  "string option \<Rightarrow> (request \<Rightarrow> nat \<Rightarrow> js_error + response)
     \<Rightarrow> (string \<Rightarrow> js_error + raw_item list) \<Rightarrow> (nat \<Rightarrow> string)
     \<Rightarrow> string list \<Rightarrow> string \<Rightarrow> (js_error + McqData list) \<times> nat list" where
  "analyzeDocumentContent apiKey generateContent jsonParse uuids pages mimeType =
     (if apiKey = None \<or> apiKey = Some [] then (Inl apiKeyMissing, [])
      else
        (case generateWithRetry
                (generateContent \<lparr> req_pages = pages, req_mimeType = mimeType \<rparr>) 3 of
           (Inl error, waited) \<Rightarrow> (Inr [], waited)
         | (Inr resp, waited) \<Rightarrow>
             (case parseResponse jsonParse uuids resp of
                Inl error \<Rightarrow> (Inr [], waited)
              | Inr records \<Rightarrow> (Inr records, waited))))"

text \<open>
  The single-unit client of \<^verbatim>\<open>services/geminiService.ts\<close>. The external call is
  given as for the batched client, by its outcome at the \<open>i\<close>-th attempt; this client
  calls it once, so only attempt 0 is read. A caught error whose message names a
  missing model is thrown again under a new message, and every other one is answered by
  the empty array.
\<close>

definition apiKeyMissing_single :: js_error where
  "apiKeyMissing_single = JsError (Some ''API Key is missing. Please check your configuration.'')"

definition modelNotFound :: js_error where
  "modelNotFound = JsError (Some ''Model not found. Please check API configuration.'')"

definition isNotFound :: "js_error \<Rightarrow> bool" where
  "isNotFound error =
     (case message error of
        None \<Rightarrow> False
      | Some m \<Rightarrow> includes_js m ''404'' \<or> includes_js m ''Not Found'')"

definition analyzeDocumentContent_single ::
  "string option \<Rightarrow> (request \<Rightarrow> nat \<Rightarrow> js_error + response)
     \<Rightarrow> (string \<Rightarrow> js_error + raw_item list) \<Rightarrow> (nat \<Rightarrow> string)
     \<Rightarrow> string \<Rightarrow> string \<Rightarrow> js_error + McqData list" where
  "analyzeDocumentContent_single apiKey generateContent jsonParse uuids contentBase64 mimeType =
     (if apiKey = None \<or> apiKey = Some [] then Inl apiKeyMissing_single
      else
        (case (case generateContent \<lparr> req_pages = [contentBase64], req_mimeType = mimeType \<rparr> 0 of
                 Inl error \<Rightarrow> Inl error
               | Inr r \<Rightarrow> parseResponse jsonParse uuids (Some r)) of
           Inl error \<Rightarrow> if isNotFound error then Inl modelNotFound else Inr []
         | Inr records \<Rightarrow> Inr records))"

section \<open>The document processor\<close>

subsection \<open>Splitting and chunking of HTML\<close>

text \<open>
  \<^verbatim>\<open>s.split(sep)\<close>: the pieces between the matches of the separator, found left to
  right; \<open>cur\<close> is the piece being read. An empty separator splits into single units.
\<close>

function split_from :: "'a list \<Rightarrow> 'a list \<Rightarrow> 'a list \<Rightarrow> 'a list list" where
  "split_from sep cur [] = [cur]"
| "split_from sep cur (c # cs) =
     (if sep \<noteq> [] \<and> startsWith (c # cs) sep
      then cur # split_from sep [] (drop (length sep) (c # cs))
      else split_from sep (cur @ [c]) cs)"
  by pat_completeness auto
termination
  by (relation "measure (\<lambda>(sep, cur, s). length s)") (auto simp: neq_Nil_conv)

definition split_js :: "'a list \<Rightarrow> 'a list \<Rightarrow> 'a list list" where
  "split_js s sep = (if sep = [] then map (\<lambda>c. [c]) s else split_from sep [] s)"

text \<open>
  The part read at index \<open>i\<close> of the loop:
  \<^verbatim>\<open>let part = parts[i]; if (i < parts.length - 1) part += '</p>';\<close>
\<close>

definition partAt :: "string list \<Rightarrow> nat \<Rightarrow> string" where
  "partAt parts i = (if int i < int (length parts) - 1 then parts ! i @ ''</p>'' else parts ! i)"

text \<open>
  The loop of \<^verbatim>\<open>chunkHtmlContent\<close> from index \<open>i\<close> on, with the chunks pushed so far
  and the chunk being filled. The maximum is a number of the source, here an integer.
\<close>

function chunkLoop ::
  "int \<Rightarrow> string list \<Rightarrow> nat \<Rightarrow> string list \<Rightarrow> string \<Rightarrow> string list \<times> string" where
  "chunkLoop maxChunkSize parts i chunks currentChunk =
     (if i < length parts then
        (let part = partAt parts i in
         if int (length currentChunk + length part) > maxChunkSize then
           (if length currentChunk > 0
            then chunkLoop maxChunkSize parts (i + 1) (chunks @ [currentChunk]) part
            else chunkLoop maxChunkSize parts (i + 1) (chunks @ [part]) [])
         else chunkLoop maxChunkSize parts (i + 1) chunks (currentChunk @ part))
      else (chunks, currentChunk))"
  by pat_completeness auto
termination
  by (relation "measure (\<lambda>(m, parts, i, chunks, cur). length parts - i)") auto

declare chunkLoop.simps [simp del]

definition chunkHtmlContent :: "string \<Rightarrow> int \<Rightarrow> string list" where
  "chunkHtmlContent html maxChunkSize =
     (if int (length html) \<le> maxChunkSize then [html]
      else
        (case chunkLoop maxChunkSize (split_js html ''</p>'') 0 [] [] of
           (chunks, currentChunk) \<Rightarrow>
             if length currentChunk > 0 then chunks @ [currentChunk] else chunks))"

subsection \<open>Batches of promises\<close>

text \<open>
  \<^verbatim>\<open>Promise.all\<close> over promises that have all been started: the results in input
  order when every one fulfils, a rejection otherwise. Which rejection wins when
  several reject is a matter of timing; the one of least index is taken here.
\<close>

fun promiseAll :: "('e + 'r) list \<Rightarrow> 'e + 'r list" where
  "promiseAll [] = Inr []"
| "promiseAll (Inl e # ps) = Inl e"
| "promiseAll (Inr r # ps) = (case promiseAll ps of Inl e \<Rightarrow> Inl e | Inr rs \<Rightarrow> Inr (r # rs))"

text \<open>\<^verbatim>\<open>items.slice(a, b)\<close> for indices \<open>a \<le> b\<close>.\<close>

definition slice :: "'a list \<Rightarrow> nat \<Rightarrow> nat \<Rightarrow> 'a list" where
  "slice items a b = take (b - a) (drop a items)"

text \<open>
  \<^verbatim>\<open>batchProcess\<close>: the loop steps by the batch size, so with a batch size of zero it
  never ends on a non-empty input; not returning is the value \<open>None\<close>.
\<close>

partial_function (option) batchProcess_loop ::
  "'a list \<Rightarrow> nat \<Rightarrow> ('a \<Rightarrow> 'e + 'r) \<Rightarrow> nat \<Rightarrow> 'r list \<Rightarrow> ('e + 'r list) option" where
  "batchProcess_loop items batchSize fn i results =
     (if i < length items then
        (let batch = slice items i (i + batchSize) in
         case promiseAll (map fn batch) of
           Inl e \<Rightarrow> Some (Inl e)
         | Inr batchResults \<Rightarrow>
             batchProcess_loop items batchSize fn (i + batchSize) (results @ batchResults))
      else Some (Inr results))"

definition batchProcess ::
  "'a list \<Rightarrow> nat \<Rightarrow> ('a \<Rightarrow> 'e + 'r) \<Rightarrow> ('e + 'r list) option" where
  "batchProcess items batchSize fn = batchProcess_loop items batchSize fn 0 []"

text \<open>
  The naive sequential map: one call after the other in input order, stopping at the
  first failure.
\<close>

fun sequentialMap :: "('a \<Rightarrow> 'e + 'r) \<Rightarrow> 'a list \<Rightarrow> 'e + 'r list" where
  "sequentialMap fn [] = Inr []"
| "sequentialMap fn (x # xs) =
     (case fn x of
        Inl e \<Rightarrow> Inl e
      | Inr r \<Rightarrow> (case sequentialMap fn xs of Inl e \<Rightarrow> Inl e | Inr rs \<Rightarrow> Inr (r # rs)))"

subsection \<open>Rasterization of a PDF\<close>

text \<open>
  What the rendering library and the canvas do for one page: the page or its rendering
  is rejected, no drawing surface is acquired, or the canvas is drawn and encoded to a
  data URL.
\<close>

datatype page_outcome = Rejected js_error | NoContext | DataURL string

record pdf_document =
  numPages :: nat
  page_outcome_of :: "nat \<Rightarrow> page_outcome"

text \<open>
  \<^verbatim>\<open>renderPage\<close>; the result is \<^verbatim>\<open>url.split(',')[1]\<close>, which is \<^verbatim>\<open>undefined\<close>
  (\<open>None\<close>) when the URL has no comma.
\<close>

definition renderPage :: "pdf_document \<Rightarrow> nat \<Rightarrow> js_error + string option" where
  "renderPage pdf pageNum =
     (case page_outcome_of pdf pageNum of
        Rejected e \<Rightarrow> Inl e
      | NoContext \<Rightarrow> Inr (Some [])
      | DataURL url \<Rightarrow>
          (case split_js url '','' of
             p0 # p1 # ps \<Rightarrow> Inr (Some p1)
           | _ \<Rightarrow> Inr None))"

text \<open>
  \<^verbatim>\<open>images.filter(img => img.length > 0)\<close>: reading the length of \<^verbatim>\<open>undefined\<close>
  raises.
\<close>

fun filterNonEmpty :: "string option list \<Rightarrow> js_error + string list" where
  "filterNonEmpty [] = Inr []"
| "filterNonEmpty (None # imgs) = Inl (typeError ''length'')"
| "filterNonEmpty (Some img # imgs) =
     (case filterNonEmpty imgs of
        Inl e \<Rightarrow> Inl e
      | Inr rest \<Rightarrow> Inr (if length img > 0 then img # rest else rest))"

text \<open>
  \<^verbatim>\<open>processPdfToImages\<close>; \<open>getDocument\<close> is the outcome of opening the file.
\<close>

definition processPdfToImages :: "js_error + pdf_document \<Rightarrow> (js_error + string list) option" where
  "processPdfToImages getDocument =
     (case getDocument of
        Inl e \<Rightarrow> Some (Inl e)
      | Inr pdf \<Rightarrow>
          (let pageIndices = map (\<lambda>i. i + 1) [0..<numPages pdf] in
           case batchProcess pageIndices 4 (renderPage pdf) of
             None \<Rightarrow> None
           | Some (Inl e) \<Rightarrow> Some (Inl e)
           | Some (Inr images) \<Rightarrow> Some (filterNonEmpty images)))"


section \<open>The application\<close>

subsection \<open>Sequential extraction with local recovery\<close>

datatype run_status = Complete | Failed js_error

text \<open>
  The classification of the \<^verbatim>\<open>catch\<close> block around one unit:
  \<^verbatim>\<open>e.message.includes('API Key') || e.message.includes('Model not found')\<close>.
  Reading \<^verbatim>\<open>includes\<close> of a missing message raises.
\<close>

definition isCritical :: "js_error \<Rightarrow> js_error + bool" where
  "isCritical e =
     (case message e of
        None \<Rightarrow> Inl (typeError ''includes'')
      | Some m \<Rightarrow> Inr (includes_js m ''API Key'' \<or> includes_js m ''Model not found''))"

text \<open>
  The extraction loop of the sequential \<^verbatim>\<open>handleProcess\<close>, one call per content unit,
  over the units still to do and the result store. \<open>analyze\<close> is the outcome of the
  extraction call on a unit.
\<close>

fun handleProcess_loop ::
  "('u \<Rightarrow> js_error + McqData list) \<Rightarrow> 'u list \<Rightarrow> McqData list \<Rightarrow> run_status \<times> McqData list" where
  "handleProcess_loop analyze [] results = (Complete, results)"
| "handleProcess_loop analyze (u # us) results =
     (case analyze u of
        Inr pageData \<Rightarrow>
          handleProcess_loop analyze us
            (if length pageData > 0 then results @ pageData else results)
      | Inl e \<Rightarrow>
          (case isCritical e of
             Inl t \<Rightarrow> (Failed t, results)
           | Inr True \<Rightarrow> (Failed e, results)
           | Inr False \<Rightarrow> handleProcess_loop analyze us results))"

text \<open>A run starts from the empty store (\<^verbatim>\<open>setResults([])\<close>).\<close>

definition handleProcess ::
  "('u \<Rightarrow> js_error + McqData list) \<Rightarrow> 'u list \<Rightarrow> run_status \<times> McqData list" where
  "handleProcess analyze units = handleProcess_loop analyze units []"

subsection \<open>Waves of groups and cancellation\<close>

definition CONCURRENT_REQUESTS :: nat where
  "CONCURRENT_REQUESTS = 3"

text \<open>
  The state the orchestrator works on: the result store, the cancellation flag
  \<^verbatim>\<open>abortRef.current\<close>, the groups handed to the extraction client so far, and the
  progress counter.
\<close>

record 'g orchestrator =
  results :: "McqData list"
  abortRef :: bool
  dispatched :: "'g list"
  completedGroups :: nat

text \<open>
  \<^verbatim>\<open>processGroups\<close> from index \<open>i\<close> on. Event handlers run only while the loop awaits
  a wave; \<open>abortAfter i\<close> is the value of the flag when the wave started at index \<open>i\<close>
  has settled. The first component is the error of a rejected wave, if any.
\<close>

function processGroups_loop ::
  "('g \<Rightarrow> js_error + McqData list) \<Rightarrow> (nat \<Rightarrow> bool) \<Rightarrow> 'g list \<Rightarrow> nat
     \<Rightarrow> 'g orchestrator \<Rightarrow> js_error option \<times> 'g orchestrator" where
  "processGroups_loop analyze abortAfter groups i st =
     (if i < length groups then
        (if abortRef st then (None, st)
         else
           (let batch = slice groups i (i + CONCURRENT_REQUESTS);
                st1 = st\<lparr>dispatched := dispatched st @ batch, abortRef := abortAfter i\<rparr>
            in case promiseAll (map analyze batch) of
                 Inl e \<Rightarrow> (Some e, st1)
               | Inr batchResults \<Rightarrow>
                   if abortRef st1 then (None, st1)
                   else
                     (let flatResults = concat batchResults;
                          st2 = (if length flatResults > 0
                                 then st1\<lparr>results := results st1 @ flatResults\<rparr> else st1)
                      in processGroups_loop analyze abortAfter groups (i + CONCURRENT_REQUESTS)
                           (st2\<lparr>completedGroups := completedGroups st2 + length batch\<rparr>))))
      else (None, st))"
  by pat_completeness auto
termination
  by (relation "measure (\<lambda>(a, c, groups, i, st). length groups - i)")
     (auto simp: CONCURRENT_REQUESTS_def)

declare processGroups_loop.simps [simp del]

definition processGroups ::
  "('g \<Rightarrow> js_error + McqData list) \<Rightarrow> (nat \<Rightarrow> bool) \<Rightarrow> 'g list
     \<Rightarrow> 'g orchestrator \<Rightarrow> js_error option \<times> 'g orchestrator" where
  "processGroups analyze abortAfter groups st =
     processGroups_loop analyze abortAfter groups 0 (st\<lparr>completedGroups := 0\<rparr>)"

text \<open>\<^verbatim>\<open>handleCancel\<close> sets the flag (and the displayed status, which is left out).\<close>

definition handleCancel :: "'g orchestrator \<Rightarrow> 'g orchestrator" where
  "handleCancel st = st\<lparr>abortRef := True\<rparr>"

subsection \<open>Edits of the result store\<close>

text \<open>The keys of \<^verbatim>\<open>McqData\<close>.\<close>

datatype McqKey =
  K_id | K_question | K_choiceA | K_choiceB | K_choiceC | K_choiceD | K_choiceE
  | K_correctAnswer | K_passage

text \<open>\<^verbatim>\<open>item[key]\<close>, \<open>None\<close> for \<^verbatim>\<open>undefined\<close>.\<close>

fun getField :: "McqKey \<Rightarrow> McqData \<Rightarrow> string option" where
  "getField K_id item = Some (id_mcq item)"
| "getField K_question item = Some (question item)"
| "getField K_choiceA item = Some (choiceA item)"
| "getField K_choiceB item = Some (choiceB item)"
| "getField K_choiceC item = Some (choiceC item)"
| "getField K_choiceD item = Some (choiceD item)"
| "getField K_choiceE item = choiceE item"
| "getField K_correctAnswer item = Some (correctAnswer item)"
| "getField K_passage item = passage item"

text \<open>\<^verbatim>\<open>{ ...item, [field]: value }\<close>\<close>

fun setField :: "McqKey \<Rightarrow> string \<Rightarrow> McqData \<Rightarrow> McqData" where
  "setField K_id v item = item\<lparr>id_mcq := v\<rparr>"
| "setField K_question v item = item\<lparr>question := v\<rparr>"
| "setField K_choiceA v item = item\<lparr>choiceA := v\<rparr>"
| "setField K_choiceB v item = item\<lparr>choiceB := v\<rparr>"
| "setField K_choiceC v item = item\<lparr>choiceC := v\<rparr>"
| "setField K_choiceD v item = item\<lparr>choiceD := v\<rparr>"
| "setField K_choiceE v item = item\<lparr>choiceE := Some v\<rparr>"
| "setField K_correctAnswer v item = item\<lparr>correctAnswer := v\<rparr>"
| "setField K_passage v item = item\<lparr>passage := Some v\<rparr>"

text \<open>
  \<^verbatim>\<open>handleUpdateResult\<close>, as the function \<^verbatim>\<open>setResults\<close> applies to the store.
\<close>

definition handleUpdateResult :: "string \<Rightarrow> McqKey \<Rightarrow> string \<Rightarrow> McqData list \<Rightarrow> McqData list" where
  "handleUpdateResult ident field v prev =
     map (\<lambda>item. if id_mcq item = ident then setField field v item else item) prev"


subsection \<open>Sample data\<close>

definition sample_r1 :: McqData where
  "sample_r1 =
     \<lparr> id_mcq = ''u1'', question = ''Q1'', choiceA = ''a'', choiceB = ''b'', choiceC = ''c'',
       choiceD = ''d'', choiceE = None, correctAnswer = ''A'', passage = None \<rparr>"

definition sample_r2 :: McqData where
  "sample_r2 =
     \<lparr> id_mcq = ''u2'', question = ''Q2'', choiceA = ''a'', choiceB = ''b'', choiceC = ''c'',
       choiceD = ''d'', choiceE = None, correctAnswer = [], passage = None \<rparr>"

text \<open>
  The paragraphs of an HTML string, in order: the parts the loop of
  \<^verbatim>\<open>chunkHtmlContent\<close> reads, each with its closing tag put back.
\<close>

definition paragraphs :: "string \<Rightarrow> string list" where
  "paragraphs html =
     (let parts = split_js html ''</p>'' in map (partAt parts) [0..<length parts])"

text \<open>
  A model that is overloaded at the first attempt and fails for good at the second, a
  model that only ever fails for good, and the other arguments of a sample call.
\<close>

definition sample_busy_then_broken :: "request \<Rightarrow> nat \<Rightarrow> js_error + response" where
  "sample_busy_then_broken req i =
     (if i = 0 then Inl (JsError (Some ''503 Service Unavailable''))
      else Inl (JsError (Some ''500 Internal Server Error'')))"

definition sample_broken :: "request \<Rightarrow> nat \<Rightarrow> js_error + response" where
  "sample_broken req i = Inl (JsError (Some ''500 Internal Server Error''))"

definition sample_parse :: "string \<Rightarrow> js_error + raw_item list" where
  "sample_parse s = Inr []"

definition sample_uuids :: "nat \<Rightarrow> string" where
  "sample_uuids k = replicate (Suc k) CHR ''u''"

text \<open>
  A model that is overloaded at the first attempt and answers at the second, and a
  parser that reads one element out of every text.
\<close>

definition sample_item :: raw_item where
  "sample_item =
     \<lparr> raw_question = ''Q'', raw_choiceA = ''a'', raw_choiceB = ''b'', raw_choiceC = ''c'',
       raw_choiceD = ''d'', raw_choiceE = None, raw_correctAnswer = Some ''b)'',
       raw_passage = None \<rparr>"

definition sample_busy_then_ok :: "request \<Rightarrow> nat \<Rightarrow> js_error + response" where
  "sample_busy_then_ok req i =
     (if i = 0 then Inl (JsError (Some ''503 Service Unavailable''))
      else Inr \<lparr> text_of = Some ''[item]'' \<rparr>)"

definition sample_parse_one :: "string \<Rightarrow> js_error + raw_item list" where
  "sample_parse_one s = Inr [sample_item]"

text \<open>
  A sample run of the orchestrator: five groups, each answered by one record, and a
  store that already holds a record.
\<close>

definition sample_analyze :: "nat \<Rightarrow> js_error + McqData list" where
  "sample_analyze g = Inr [sample_r2]"

definition sample_groups :: "nat list" where
  "sample_groups = [1, 2, 3, 4, 5]"

definition sample_state :: "nat orchestrator" where
  "sample_state = \<lparr> results = [sample_r1], abortRef = False, dispatched = [], completedGroups = 0 \<rparr>"

definition cancel_in_first_wave :: "nat \<Rightarrow> bool" where
  "cancel_in_first_wave i = True"

text \<open>
  A sample extraction over numbered units: unit 2 fails with an error that is not
  critical, every other unit \<open>u\<close> yields \<open>u\<close> records.
\<close>

definition sample_flaky :: "nat \<Rightarrow> js_error + McqData list" where
  "sample_flaky u =
     (if u = 2 then Inl (JsError (Some ''500 Internal Server Error''))
      else Inr (replicate u sample_r1))"

text \<open>
  Two sample documents: three pages of which the second gets no drawing surface, and
  one page whose canvas is drawn but has no pixels, for which the encoder returns the
  data URL with an empty payload.
\<close>

definition sample_pdf :: pdf_document where
  "sample_pdf =
     \<lparr> numPages = 3,
       page_outcome_of = (\<lambda>p. if p = 2 then NoContext
                               else if p = 1 then DataURL ''data:image/jpeg;base64,AAAA''
                               else DataURL ''data:image/jpeg;base64,BBBB'') \<rparr>"

definition sample_payload :: "nat \<Rightarrow> string" where
  "sample_payload p = (if p = 2 then [] else if p = 1 then ''AAAA'' else ''BBBB'')"

definition sample_blank_pdf :: pdf_document where
  "sample_blank_pdf = \<lparr> numPages = 1, page_outcome_of = (\<lambda>p. DataURL ''data:,'') \<rparr>"

section \<open>Properties of the extraction client\<close>

lemma keepAtoE_letters: "set (keepAtoE s) \<subseteq> set ''ABCDE''"
  by (auto simp: keepAtoE_def)

lemma normalizeCorrectAnswer_letters: "set (normalizeCorrectAnswer x) \<subseteq> set ''ABCDE''"
  by (cases x) (auto simp: normalizeCorrectAnswer_def keepAtoE_def)

text \<open>
  C1. The claim is that the normalized answer is empty or one letter of A..E. The
  filter keeps every unit of A..E, so a word with several such letters keeps them all:
  the raw answer \<open>bad\<close> becomes the three-letter string \<open>BAD\<close>.
\<close>

theorem postProcessItem_keeps_several_letters:
  "correctAnswer (postProcessItem uuid (item\<lparr>raw_correctAnswer := Some ''bad''\<rparr>)) = ''BAD''"
  by (simp add: postProcessItem_def) code_simp

text \<open>
  C8. A raw answer \<open>b)\<close> is normalized to \<open>B\<close>; an empty or absent raw answer is
  normalized to the empty string. The field of the record is a string, so it is never
  null or undefined.
\<close>

theorem postProcessItem_correctAnswer_examples:
  "correctAnswer (postProcessItem uuid (item\<lparr>raw_correctAnswer := Some ''b)''\<rparr>)) = ''B'' \<and>
   correctAnswer (postProcessItem uuid (item\<lparr>raw_correctAnswer := Some []\<rparr>)) = [] \<and>
   correctAnswer (postProcessItem uuid (item\<lparr>raw_correctAnswer := None\<rparr>)) = []"
proof -
  have "normalizeCorrectAnswer (Some ''b)'') = ''B''" by code_simp
  moreover have "normalizeCorrectAnswer (Some []) = []" by (simp add: normalizeCorrectAnswer_def)
  moreover have "normalizeCorrectAnswer None = []" by (simp add: normalizeCorrectAnswer_def)
  ultimately show ?thesis by (simp add: postProcessItem_def)
qed

section \<open>Properties of the result store\<close>

lemma getField_setField_other: "k \<noteq> f \<Longrightarrow> getField k (setField f v item) = getField k item"
  by (cases f; cases k; simp)

lemma getField_setField_same: "getField f (setField f v item) = Some v"
  by (cases f; simp)

text \<open>
  C10. The field-level update keeps the length and the order of the store: at every
  index, a record with another identifier is unchanged, and a record with the given
  identifier has the named field set to the value and every other field as before.
  When no record has the identifier, the store is unchanged.
\<close>

theorem handleUpdateResult_frame:
  "length (handleUpdateResult ident field v prev) = length prev \<and>
   (\<forall>i < length prev.
      (id_mcq (prev ! i) \<noteq> ident \<longrightarrow> handleUpdateResult ident field v prev ! i = prev ! i) \<and>
      (id_mcq (prev ! i) = ident \<longrightarrow>
         getField field (handleUpdateResult ident field v prev ! i) = Some v \<and>
         (\<forall>k. k \<noteq> field \<longrightarrow>
            getField k (handleUpdateResult ident field v prev ! i) = getField k (prev ! i)))) \<and>
   (ident \<notin> id_mcq ` set prev \<longrightarrow> handleUpdateResult ident field v prev = prev)"
proof (intro conjI allI impI)
  show "length (handleUpdateResult ident field v prev) = length prev"
    by (simp add: handleUpdateResult_def)
next
  fix i assume "i < length prev" "id_mcq (prev ! i) \<noteq> ident"
  then show "handleUpdateResult ident field v prev ! i = prev ! i"
    by (simp add: handleUpdateResult_def)
next
  fix i assume "i < length prev" "id_mcq (prev ! i) = ident"
  then show "getField field (handleUpdateResult ident field v prev ! i) = Some v"
    by (simp add: handleUpdateResult_def getField_setField_same)
next
  fix i k assume "i < length prev" "id_mcq (prev ! i) = ident" "k \<noteq> field"
  then show "getField k (handleUpdateResult ident field v prev ! i) = getField k (prev ! i)"
    by (simp add: handleUpdateResult_def getField_setField_other)
next
  assume "ident \<notin> id_mcq ` set prev"
  then have "\<forall>item \<in> set prev. id_mcq item \<noteq> ident" by auto
  then show "handleUpdateResult ident field v prev = prev"
    by (simp add: handleUpdateResult_def map_idI)
qed

theorem handleUpdateResult_frame_witness:
  "handleUpdateResult ''u2'' K_correctAnswer ''C'' [sample_r1, sample_r2] ! 0 = sample_r1 \<and>
   getField K_correctAnswer
     (handleUpdateResult ''u2'' K_correctAnswer ''C'' [sample_r1, sample_r2] ! 1) = Some ''C'' \<and>
   getField K_question
     (handleUpdateResult ''u2'' K_correctAnswer ''C'' [sample_r1, sample_r2] ! 1) = Some ''Q2'' \<and>
   handleUpdateResult ''u9'' K_correctAnswer ''C'' [sample_r1, sample_r2] = [sample_r1, sample_r2]"
proof -
  note t = handleUpdateResult_frame [of "''u2''" K_correctAnswer "''C''" "[sample_r1, sample_r2]"]
  note n = handleUpdateResult_frame [of "''u9''" K_correctAnswer "''C''" "[sample_r1, sample_r2]"]
  note at = t [THEN conjunct2, THEN conjunct1, rule_format]
  have l0: "0 < length [sample_r1, sample_r2]" and l1: "1 < length [sample_r1, sample_r2]"
    by simp_all
  have b0: "id_mcq ([sample_r1, sample_r2] ! 0) \<noteq> ''u2''" by (simp add: sample_r1_def)
  have b1: "id_mcq ([sample_r1, sample_r2] ! 1) = ''u2''" by (simp add: sample_r2_def)
  have c: "''u9'' \<notin> id_mcq ` set [sample_r1, sample_r2]"
    by (simp add: sample_r1_def sample_r2_def)
  have d: "K_question \<noteq> K_correctAnswer" by simp
  have t0: "handleUpdateResult ''u2'' K_correctAnswer ''C'' [sample_r1, sample_r2] ! 0
              = [sample_r1, sample_r2] ! 0"
    by (rule at [OF l0, THEN conjunct1, rule_format, OF b0])
  have t1: "getField K_correctAnswer
              (handleUpdateResult ''u2'' K_correctAnswer ''C'' [sample_r1, sample_r2] ! 1) = Some ''C''"
    by (rule at [OF l1, THEN conjunct2, rule_format, OF b1, THEN conjunct1])
  have t2: "getField K_question
              (handleUpdateResult ''u2'' K_correctAnswer ''C'' [sample_r1, sample_r2] ! 1)
              = getField K_question ([sample_r1, sample_r2] ! 1)"
    by (rule at [OF l1, THEN conjunct2, rule_format, OF b1, THEN conjunct2, rule_format, OF d])
  have t3: "handleUpdateResult ''u9'' K_correctAnswer ''C'' [sample_r1, sample_r2]
              = [sample_r1, sample_r2]"
    by (rule n [THEN conjunct2, THEN conjunct2, rule_format, OF c])
  show ?thesis using t0 t1 t2 t3 by (simp add: sample_r2_def)
qed

section \<open>Properties of the document processor\<close>

subsection \<open>Batches\<close>

lemma promiseAll_map: "promiseAll (map fn xs) = sequentialMap fn xs"
  by (induction xs) (auto split: sum.splits)

lemma sequentialMap_append:
  "sequentialMap fn (xs @ ys) =
     (case sequentialMap fn xs of
        Inl e \<Rightarrow> Inl e
      | Inr rs \<Rightarrow> (case sequentialMap fn ys of Inl e \<Rightarrow> Inl e | Inr ss \<Rightarrow> Inr (rs @ ss)))"
  by (induction xs) (auto split: sum.splits)

lemma sequentialMap_pure: "sequentialMap (\<lambda>x. Inr (g x)) xs = Inr (map g xs)"
  by (induction xs) auto

lemma drop_slice: "drop i items = slice items i (i + n) @ drop (i + n) items"
proof -
  have "drop i items = take n (drop i items) @ drop n (drop i items)"
    by (rule append_take_drop_id [symmetric])
  then show ?thesis by (simp add: slice_def add.commute)
qed

lemma batchProcess_loop_eq:
  assumes "1 \<le> batchSize"
  shows "batchProcess_loop items batchSize fn i acc =
           Some (case sequentialMap fn (drop i items) of
                   Inl e \<Rightarrow> Inl e
                 | Inr rs \<Rightarrow> Inr (acc @ rs))"
proof (induction "length items - i" arbitrary: i acc rule: less_induct)
  case less
  show ?case
  proof (cases "i < length items")
    case False
    then show ?thesis by (subst batchProcess_loop.simps) simp
  next
    case True
    let ?batch = "slice items i (i + batchSize)"
    let ?rest = "drop (i + batchSize) items"
    have whole: "sequentialMap fn (drop i items) =
        (case sequentialMap fn ?batch of
           Inl e \<Rightarrow> Inl e
         | Inr rs \<Rightarrow> (case sequentialMap fn ?rest of Inl e \<Rightarrow> Inl e | Inr ss \<Rightarrow> Inr (rs @ ss)))"
      by (subst drop_slice [of i items batchSize]) (rule sequentialMap_append)
    show ?thesis
    proof (cases "sequentialMap fn ?batch")
      case (Inl e)
      then show ?thesis using True
        by (subst batchProcess_loop.simps) (simp add: promiseAll_map whole)
    next
      case (Inr rs)
      have smaller: "length items - (i + batchSize) < length items - i"
        using True assms by arith
      have step: "batchProcess_loop items batchSize fn i acc =
                    batchProcess_loop items batchSize fn (i + batchSize) (acc @ rs)"
        using True Inr by (subst batchProcess_loop.simps) (simp add: promiseAll_map)
      show ?thesis
        unfolding step less [OF smaller] whole Inr
        by (simp split: sum.splits)
    qed
  qed
qed

text \<open>
  C9. For a batch size of at least one, \<^verbatim>\<open>batchProcess\<close> returns, and it returns a list
  exactly when the sequential map does, then the same list; for a function that never
  fails this is the list of the function's values in input order, whatever the batch
  size. (When some call fails both fail; which failure a wave reports is a matter of
  timing and is not compared.)
\<close>

theorem batchProcess_refines_sequentialMap:
  assumes "1 \<le> batchSize"
  shows "(\<exists>r. batchProcess items batchSize fn = Some r \<and>
              (\<forall>ys. r = Inr ys \<longleftrightarrow> sequentialMap fn items = Inr ys)) \<and>
         batchProcess items batchSize (\<lambda>x. Inr (g x)) = Some (Inr (map g items))"
proof
  show "\<exists>r. batchProcess items batchSize fn = Some r \<and>
              (\<forall>ys. r = Inr ys \<longleftrightarrow> sequentialMap fn items = Inr ys)"
    using batchProcess_loop_eq [OF assms, of items fn 0 "[]"]
    by (auto simp: batchProcess_def split: sum.splits)
  show "batchProcess items batchSize (\<lambda>x. Inr (g x)) = Some (Inr (map g items))"
    using batchProcess_loop_eq [OF assms, of items "\<lambda>x. Inr (g x)" 0 "[]"]
    by (simp add: batchProcess_def sequentialMap_pure)
qed

theorem batchProcess_refines_sequentialMap_witness:
  "batchProcess [1, 2, 3, 4, 5 :: nat] 2 (\<lambda>x. Inr (x * 10) :: unit + nat)
     = Some (Inr [10, 20, 30, 40, 50]) \<and>
   (\<exists>r. batchProcess [1, 2, 3 :: nat] 2 (\<lambda>x. if x = 2 then Inl () else Inr x) = Some r \<and> isl r)"
proof -
  have one: "(1::nat) \<le> 2" by simp
  note t = batchProcess_refines_sequentialMap [OF one]
  have a: "batchProcess [1, 2, 3, 4, 5 :: nat] 2 (\<lambda>x. Inr (x * 10) :: unit + nat)
             = Some (Inr (map (\<lambda>x. x * 10) [1, 2, 3, 4, 5]))"
    by (rule t [THEN conjunct2])
  obtain r where r: "batchProcess [1, 2, 3 :: nat] 2 (\<lambda>x. if x = 2 then Inl () else Inr x) = Some r"
    and iff: "\<forall>ys. r = Inr ys \<longleftrightarrow> sequentialMap (\<lambda>x. if x = 2 then Inl () else Inr x) [1, 2, 3 :: nat] = Inr ys"
    using t [THEN conjunct1, of "[1, 2, 3]" "\<lambda>x. if x = 2 then Inl () else Inr x"] by blast
  have "sequentialMap (\<lambda>x. if x = 2 then Inl () else Inr x) [1, 2, 3 :: nat] = Inl ()" by simp
  with iff have "isl r" by (cases r) auto
  with r a show ?thesis by simp
qed

subsection \<open>Chunks of HTML\<close>

lemma startsWith_append: "startsWith s p \<Longrightarrow> s = p @ drop (length p) s"
  by (induction s p rule: startsWith.induct) auto

lemma split_from_nonempty: "split_from sep cur s \<noteq> []"
  by (induction sep cur s rule: split_from.induct) auto

lemma split_from_join:
  "concat (map (\<lambda>p. p @ sep) (butlast (split_from sep cur s))) @ last (split_from sep cur s)
     = cur @ s"
proof (induction sep cur s rule: split_from.induct)
  case (1 sep cur)
  then show ?case by simp
next
  case (2 sep cur c cs)
  show ?case
  proof (cases "sep \<noteq> [] \<and> startsWith (c # cs) sep")
    case True
    then have eq: "c # cs = sep @ drop (length sep) (c # cs)"
      using startsWith_append by blast
    have "concat (map (\<lambda>p. p @ sep) (butlast (split_from sep cur (c # cs))))
            @ last (split_from sep cur (c # cs))
          = cur @ sep @ drop (length sep) (c # cs)"
      using True 2(1) [OF True] by (simp add: split_from_nonempty)
    with eq show ?thesis by simp
  next
    case False
    then show ?thesis using 2(2) by auto
  qed
qed

lemma partAt_map:
  assumes "parts \<noteq> []"
  shows "map (partAt parts) [0..<length parts]
           = map (\<lambda>p. p @ ''</p>'') (butlast parts) @ [last parts]"
proof (rule nth_equalityI)
  show "length (map (partAt parts) [0..<length parts])
          = length (map (\<lambda>p. p @ ''</p>'') (butlast parts) @ [last parts])"
    using assms by simp
next
  fix i assume "i < length (map (partAt parts) [0..<length parts])"
  then have i: "i < length parts" by simp
  show "map (partAt parts) [0..<length parts] ! i
          = (map (\<lambda>p. p @ ''</p>'') (butlast parts) @ [last parts]) ! i"
  proof (cases "i < length parts - 1")
    case True
    then show ?thesis using i
      by (auto simp: partAt_def nth_append nth_butlast)
  next
    case False
    with i have "i = length parts - 1" by simp
    then show ?thesis using i assms
      by (auto simp: partAt_def nth_append last_conv_nth)
  qed
qed

lemma concat_paragraphs: "concat (paragraphs html) = html"
proof -
  let ?parts = "split_js html ''</p>''"
  have parts: "?parts = split_from ''</p>'' [] html" by (simp add: split_js_def)
  have ne: "?parts \<noteq> []" unfolding parts by (rule split_from_nonempty)
  have "concat (paragraphs html)
          = concat (map (\<lambda>p. p @ ''</p>'') (butlast ?parts)) @ last ?parts"
    by (simp add: paragraphs_def Let_def partAt_map [OF ne])
  also have "\<dots> = [] @ html" unfolding parts by (rule split_from_join)
  finally show ?thesis by simp
qed

lemma chunkLoop_concat:
  "concat (fst (chunkLoop m parts i chunks cur)) @ snd (chunkLoop m parts i chunks cur)
     = concat chunks @ cur @ concat (map (partAt parts) [i..<length parts])"
proof (induction m parts i chunks cur rule: chunkLoop.induct)
  case (1 m parts i chunks cur)
  show ?case
  proof (cases "i < length parts")
    case False
    then show ?thesis by (subst (1 2) chunkLoop.simps) simp
  next
    case True
    then have range: "[i..<length parts] = i # [i + 1..<length parts]"
      by (simp add: upt_conv_Cons)
    show ?thesis using True 1 [OF True refl]
      by (subst (1 2) chunkLoop.simps) (simp add: Let_def range)
  qed
qed

lemma concat_chunkHtmlContent: "concat (chunkHtmlContent html maxChunkSize) = html"
proof (cases "int (length html) \<le> maxChunkSize")
  case True
  then show ?thesis by (simp add: chunkHtmlContent_def)
next
  case False
  let ?parts = "split_js html ''</p>''"
  obtain chunks cur where r: "chunkLoop maxChunkSize ?parts 0 [] [] = (chunks, cur)"
    by (cases "chunkLoop maxChunkSize ?parts 0 [] []")
  have "concat chunks @ cur = concat (paragraphs html)"
    using chunkLoop_concat [of maxChunkSize ?parts 0 "[]" "[]"] r
    by (simp add: paragraphs_def Let_def)
  then have "concat chunks @ cur = html" by (simp add: concat_paragraphs)
  then show ?thesis using False r by (auto simp: chunkHtmlContent_def)
qed


lemma partAt_in_paragraphs:
  "i < length (split_js html ''</p>'') \<Longrightarrow> partAt (split_js html ''</p>'') i \<in> set (paragraphs html)"
  by (simp add: paragraphs_def Let_def)

lemma chunkLoop_bound:
  assumes "0 \<le> m"
    and "\<forall>i < length parts. partAt parts i \<in> S"
    and "\<forall>c \<in> set chunks. int (length c) \<le> m \<or> c \<in> S"
    and "int (length cur) \<le> m \<or> cur \<in> S"
  shows "(\<forall>c \<in> set (fst (chunkLoop m parts i chunks cur)). int (length c) \<le> m \<or> c \<in> S) \<and>
         (int (length (snd (chunkLoop m parts i chunks cur))) \<le> m
            \<or> snd (chunkLoop m parts i chunks cur) \<in> S)"
  using assms
proof (induction m parts i chunks cur rule: chunkLoop.induct)
  case (1 m parts i chunks cur)
  show ?case
  proof (cases "i < length parts")
    case False
    then show ?thesis using "1.prems" by (subst (1 2 3) chunkLoop.simps) simp
  next
    case True
    let ?part = "partAt parts i"
    have part: "?part \<in> S" using True "1.prems"(2) by simp
    show ?thesis
    proof (cases "int (length cur + length ?part) > m")
      case over: True
      show ?thesis
      proof (cases "length cur > 0")
        case True
        have "(\<forall>c \<in> set (fst (chunkLoop m parts (i + 1) (chunks @ [cur]) ?part)). int (length c) \<le> m \<or> c \<in> S) \<and>
              (int (length (snd (chunkLoop m parts (i + 1) (chunks @ [cur]) ?part))) \<le> m
                 \<or> snd (chunkLoop m parts (i + 1) (chunks @ [cur]) ?part) \<in> S)"
          using "1.IH"(1) [OF \<open>i < length parts\<close> refl over True "1.prems"(1,2)] "1.prems"(3,4) part by auto
        then show ?thesis using \<open>i < length parts\<close> over True
          by (subst (1 2 3) chunkLoop.simps) (simp add: Let_def)
      next
        case False
        have "(\<forall>c \<in> set (fst (chunkLoop m parts (i + 1) (chunks @ [?part]) [])). int (length c) \<le> m \<or> c \<in> S) \<and>
              (int (length (snd (chunkLoop m parts (i + 1) (chunks @ [?part]) []))) \<le> m
                 \<or> snd (chunkLoop m parts (i + 1) (chunks @ [?part]) []) \<in> S)"
          using "1.IH"(2) [OF \<open>i < length parts\<close> refl over False "1.prems"(1,2)] "1.prems"(1,3) part by auto
        then show ?thesis using \<open>i < length parts\<close> over False
          by (subst (1 2 3) chunkLoop.simps) (simp add: Let_def)
      qed
    next
      case False
      have "(\<forall>c \<in> set (fst (chunkLoop m parts (i + 1) chunks (cur @ ?part))). int (length c) \<le> m \<or> c \<in> S) \<and>
            (int (length (snd (chunkLoop m parts (i + 1) chunks (cur @ ?part)))) \<le> m
               \<or> snd (chunkLoop m parts (i + 1) chunks (cur @ ?part)) \<in> S)"
        using "1.IH"(3) [OF \<open>i < length parts\<close> refl False "1.prems"(1,2)] "1.prems"(3) False by auto
      then show ?thesis using \<open>i < length parts\<close> False
        by (subst (1 2 3) chunkLoop.simps) (simp add: Let_def)
    qed
  qed
qed

lemma chunkLoop_groups:
  assumes "chunks = map concat gs" and "cur = concat g"
  shows "\<exists>gs' g'. fst (chunkLoop m parts i chunks cur) = map concat gs' \<and>
                   snd (chunkLoop m parts i chunks cur) = concat g' \<and>
                   concat gs' @ g' = concat gs @ g @ map (partAt parts) [i..<length parts]"
  using assms
proof (induction m parts i chunks cur arbitrary: gs g rule: chunkLoop.induct)
  case (1 m parts i chunks cur)
  show ?case
  proof (cases "i < length parts")
    case False
    then show ?thesis using "1.prems" by (subst (1 2) chunkLoop.simps) auto
  next
    case True
    let ?part = "partAt parts i"
    have range: "[i..<length parts] = i # [i + 1..<length parts]"
      using True by (simp add: upt_conv_Cons)
    show ?thesis
    proof (cases "int (length cur + length ?part) > m")
      case over: True
      show ?thesis
      proof (cases "length cur > 0")
        case True
        have "chunks @ [cur] = map concat (gs @ [g])" "?part = concat [?part]"
          using "1.prems" by simp_all
        from "1.IH"(1) [OF \<open>i < length parts\<close> refl over True this]
        obtain gs' g' where
          "fst (chunkLoop m parts (i + 1) (chunks @ [cur]) ?part) = map concat gs'"
          "snd (chunkLoop m parts (i + 1) (chunks @ [cur]) ?part) = concat g'"
          "concat gs' @ g' = concat (gs @ [g]) @ [?part] @ map (partAt parts) [i + 1..<length parts]"
          by blast
        then show ?thesis using \<open>i < length parts\<close> over True range
          by (subst (1 2) chunkLoop.simps) (auto simp: Let_def)
      next
        case False
        then have "concat g = []" using "1.prems"(2) by simp
        then have "chunks @ [?part] = map concat (gs @ [g @ [?part]])" "[] = concat ([] :: string list)"
          using "1.prems"(1) by simp_all
        from "1.IH"(2) [OF \<open>i < length parts\<close> refl over False this]
        obtain gs' g' where
          "fst (chunkLoop m parts (i + 1) (chunks @ [?part]) []) = map concat gs'"
          "snd (chunkLoop m parts (i + 1) (chunks @ [?part]) []) = concat g'"
          "concat gs' @ g' = concat (gs @ [g @ [?part]]) @ [] @ map (partAt parts) [i + 1..<length parts]"
          by blast
        then show ?thesis using \<open>i < length parts\<close> over False range
          by (subst (1 2) chunkLoop.simps) (auto simp: Let_def)
      qed
    next
      case False
      have "chunks = map concat gs" "cur @ ?part = concat (g @ [?part])"
        using "1.prems" by simp_all
      from "1.IH"(3) [OF \<open>i < length parts\<close> refl False this]
      obtain gs' g' where
        "fst (chunkLoop m parts (i + 1) chunks (cur @ ?part)) = map concat gs'"
        "snd (chunkLoop m parts (i + 1) chunks (cur @ ?part)) = concat g'"
        "concat gs' @ g' = concat gs @ (g @ [?part]) @ map (partAt parts) [i + 1..<length parts]"
        by blast
      then show ?thesis using \<open>i < length parts\<close> False range
        by (subst (1 2) chunkLoop.simps) (auto simp: Let_def)
    qed
  qed
qed


text \<open>
  C3. Concatenating the chunks of \<^verbatim>\<open>chunkHtmlContent\<close> in order gives back the
  HTML string, whatever the maximum chunk size.
\<close>

theorem chunkHtmlContent_concat: "concat (chunkHtmlContent html maxChunkSize) = html"
  by (rule concat_chunkHtmlContent)

text \<open>
  C4. For a positive maximum, every chunk is within the maximum, or it is one of the
  paragraphs of the input and that paragraph alone is longer than the maximum. No
  paragraph is split: the chunks are the concatenations of consecutive groups of whole
  paragraphs that together make up the list of paragraphs.
\<close>

theorem chunkHtmlContent_bound:
  assumes "0 < maxChunkSize"
  shows "(\<forall>c \<in> set (chunkHtmlContent html maxChunkSize).
            int (length c) \<le> maxChunkSize \<or>
            (c \<in> set (paragraphs html) \<and> int (length c) > maxChunkSize)) \<and>
         (\<exists>gs. concat gs = paragraphs html \<and> chunkHtmlContent html maxChunkSize = map concat gs)"
proof (cases "int (length html) \<le> maxChunkSize")
  case True
  then have "chunkHtmlContent html maxChunkSize = [html]" by (simp add: chunkHtmlContent_def)
  moreover have "concat [paragraphs html] = paragraphs html \<and> [html] = map concat [paragraphs html]"
    by (simp add: concat_paragraphs)
  ultimately show ?thesis using True by (metis empty_iff empty_set set_ConsD)
next
  case False
  let ?parts = "split_js html ''</p>''"
  let ?loop = "chunkLoop maxChunkSize ?parts 0 [] []"
  have res: "chunkHtmlContent html maxChunkSize
               = (if length (snd ?loop) > 0 then fst ?loop @ [snd ?loop] else fst ?loop)"
    using False by (simp add: chunkHtmlContent_def split: prod.splits)
  have "(\<forall>c \<in> set (fst ?loop). int (length c) \<le> maxChunkSize \<or> c \<in> set (paragraphs html)) \<and>
        (int (length (snd ?loop)) \<le> maxChunkSize \<or> snd ?loop \<in> set (paragraphs html))"
    using assms by (intro chunkLoop_bound) (simp_all add: partAt_in_paragraphs)
  then have bound: "\<forall>c \<in> set (chunkHtmlContent html maxChunkSize).
            int (length c) \<le> maxChunkSize \<or>
            (c \<in> set (paragraphs html) \<and> int (length c) > maxChunkSize)"
    unfolding res by auto
  obtain gs g where gs: "fst ?loop = map concat gs" "snd ?loop = concat g"
    and all: "concat gs @ g = paragraphs html"
    using chunkLoop_groups [of "[]" "[]" "[]" "[]" maxChunkSize ?parts 0]
    by (auto simp: paragraphs_def Let_def)
  have "\<exists>hs. concat hs = paragraphs html \<and> chunkHtmlContent html maxChunkSize = map concat hs"
  proof (cases "length (snd ?loop) > 0")
    case True
    then have "chunkHtmlContent html maxChunkSize = map concat (gs @ [g])"
      using res gs by simp
    moreover have "concat (gs @ [g]) = paragraphs html" using all by simp
    ultimately show ?thesis by blast
  next
    case empty: False
    then have chunks: "chunkHtmlContent html maxChunkSize = map concat gs" and g: "concat g = []"
      using res gs by simp_all
    have "gs \<noteq> []"
    proof
      assume "gs = []"
      then have "concat (chunkHtmlContent html maxChunkSize) = []" using chunks by simp
      then have "html = []" by (simp add: concat_chunkHtmlContent)
      then show False using False assms by simp
    qed
    then have split: "gs = butlast gs @ [last gs]" by simp
    let ?hs = "butlast gs @ [last gs @ g]"
    have "map concat ?hs = map concat (butlast gs @ [last gs])" using g by simp
    then have "map concat ?hs = map concat gs" using split by simp
    moreover have "concat ?hs = concat (butlast gs @ [last gs]) @ g" by simp
    then have "concat ?hs = paragraphs html" using split all by simp
    ultimately show ?thesis using chunks by metis
  qed
  with bound show ?thesis by blast
qed

theorem chunkHtmlContent_bound_witness:
  "chunkHtmlContent ''ab</p>cdefghijkl</p>xy</p>'' 7 = [''ab</p>'', ''cdefghijkl</p>'', ''xy</p>''] \<and>
   ''cdefghijkl</p>'' \<in> set (paragraphs ''ab</p>cdefghijkl</p>xy</p>'') \<and>
   (\<exists>gs. concat gs = paragraphs ''ab</p>cdefghijkl</p>xy</p>'' \<and>
         chunkHtmlContent ''ab</p>cdefghijkl</p>xy</p>'' 7 = map concat gs)"
proof -
  have pos: "(0::int) < 7" by simp
  note t = chunkHtmlContent_bound [OF pos, of "''ab</p>cdefghijkl</p>xy</p>''"]
  have chunks:
    "chunkHtmlContent ''ab</p>cdefghijkl</p>xy</p>'' 7 = [''ab</p>'', ''cdefghijkl</p>'', ''xy</p>'']"
    by code_simp
  then have "''cdefghijkl</p>'' \<in> set (chunkHtmlContent ''ab</p>cdefghijkl</p>xy</p>'' 7)"
    by simp
  with t have "int (length ''cdefghijkl</p>'') \<le> 7 \<or>
      (''cdefghijkl</p>'' \<in> set (paragraphs ''ab</p>cdefghijkl</p>xy</p>'') \<and>
       7 < int (length ''cdefghijkl</p>''))"
    by blast
  then have "''cdefghijkl</p>'' \<in> set (paragraphs ''ab</p>cdefghijkl</p>xy</p>'')" by simp
  with chunks t show ?thesis by blast
qed

section \<open>Retries and recovery of the extraction client\<close>

lemma generateWithRetry_loop_skip:
  assumes "k < retries"
    and "\<forall>j. i \<le> j \<and> j < k \<longrightarrow> (\<exists>e. generateContent j = Inl e \<and> isRetryable e)"
    and "i \<le> k"
  shows "generateWithRetry_loop generateContent retries i waited =
           generateWithRetry_loop generateContent retries k
             (waited @ map (\<lambda>i. 1000 * 2 ^ i) [i..<k])"
  using assms(2,3)
proof (induction "k - i" arbitrary: i waited)
  case 0
  then show ?case by simp
next
  case (Suc d)
  then have lt: "i < k" by simp
  then obtain e where e: "generateContent i = Inl e" "isRetryable e"
    using Suc.prems(1) by blast
  have range: "[i..<k] = i # [i + 1..<k]" using lt by (simp add: upt_conv_Cons)
  have "generateWithRetry_loop generateContent retries i waited =
          generateWithRetry_loop generateContent retries (i + 1) (waited @ [1000 * 2 ^ i])"
    using lt assms(1) e by (subst generateWithRetry_loop.simps) auto
  also have "\<dots> = generateWithRetry_loop generateContent retries k
                      ((waited @ [1000 * 2 ^ i]) @ map (\<lambda>i. 1000 * 2 ^ i) [i + 1..<k])"
    using Suc.hyps(2) Suc.prems lt by (intro Suc.hyps(1)) auto
  finally show ?case by (simp add: range)
qed

lemma generateWithRetry_at:
  assumes "k < retries"
    and "\<forall>j<k. \<exists>e. generateContent j = Inl e \<and> isRetryable e"
  shows "generateWithRetry generateContent retries =
           (case generateContent k of
              Inr r \<Rightarrow> (Inr (Some r), map (\<lambda>i. 1000 * 2 ^ i) [0..<k])
            | Inl e \<Rightarrow>
                if k = retries - 1 \<or> \<not> isRetryable e
                then (Inl e, map (\<lambda>i. 1000 * 2 ^ i) [0..<k])
                else generateWithRetry_loop generateContent retries (k + 1)
                       (map (\<lambda>i. 1000 * 2 ^ i) [0..<k] @ [1000 * 2 ^ k]))"
proof -
  have "generateWithRetry generateContent retries =
          generateWithRetry_loop generateContent retries k (map (\<lambda>i. 1000 * 2 ^ i) [0..<k])"
    unfolding generateWithRetry_def
    using generateWithRetry_loop_skip [OF assms(1), of 0 generateContent "[]"] assms(2) by simp
  also have "\<dots> = (case generateContent k of
              Inr r \<Rightarrow> (Inr (Some r), map (\<lambda>i. 1000 * 2 ^ i) [0..<k])
            | Inl e \<Rightarrow>
                if k = retries - 1 \<or> \<not> isRetryable e
                then (Inl e, map (\<lambda>i. 1000 * 2 ^ i) [0..<k])
                else generateWithRetry_loop generateContent retries (k + 1)
                       (map (\<lambda>i. 1000 * 2 ^ i) [0..<k] @ [1000 * 2 ^ k]))"
    using assms(1) by (subst generateWithRetry_loop.simps) simp
  finally show ?thesis .
qed

lemma generateWithRetry_loop_waited:
  assumes "waited = map (\<lambda>i. 1000 * 2 ^ i) [0..<i]" and "i < retries \<or> i = 0"
  shows "\<exists>n. n \<le> retries - 1 \<and>
             snd (generateWithRetry_loop generateContent retries i waited)
               = map (\<lambda>i. 1000 * 2 ^ i) [0..<n]"
  using assms
proof (induction generateContent retries i waited rule: generateWithRetry_loop.induct)
  case (1 generateContent retries i waited)
  show ?case
  proof (cases "i < retries")
    case False
    then have "i = 0" using "1.prems"(2) by simp
    then have "snd (generateWithRetry_loop generateContent retries i waited) = map (\<lambda>i. 1000 * 2 ^ i) [0..<0]"
      using False "1.prems"(1) by (subst generateWithRetry_loop.simps) simp
    then show ?thesis by blast
  next
    case True
    then have here: "i \<le> retries - 1" by simp
    show ?thesis
    proof (cases "generateContent i")
      case (Inr r)
      then have "snd (generateWithRetry_loop generateContent retries i waited) = waited"
        using True by (subst generateWithRetry_loop.simps) simp
      then show ?thesis using "1.prems"(1) here by blast
    next
      case (Inl e)
      show ?thesis
      proof (cases "i = retries - 1 \<or> \<not> isRetryable e")
        case stop: True
        then have "snd (generateWithRetry_loop generateContent retries i waited) = waited"
          using True Inl by (subst generateWithRetry_loop.simps) auto
        then show ?thesis using "1.prems"(1) here by blast
      next
        case go: False
        then have next_lt: "i + 1 < retries \<or> i + 1 = 0" using True by arith
        have step: "generateWithRetry_loop generateContent retries i waited =
                generateWithRetry_loop generateContent retries (i + 1) (waited @ [1000 * 2 ^ i])"
          using True Inl go by (subst generateWithRetry_loop.simps) auto
        have "waited @ [1000 * 2 ^ i] = map (\<lambda>i. 1000 * 2 ^ i) [0..<i + 1]"
          using "1.prems"(1) by simp
        from "1.IH" [OF \<open>i < retries\<close> Inl go this next_lt] show ?thesis
          unfolding step .
      qed
    qed
  qed
qed

lemma generateWithRetry_waited:
  "\<exists>n. n \<le> retries - 1 \<and>
       snd (generateWithRetry generateContent retries) = map (\<lambda>i. 1000 * 2 ^ i) [0..<n]"
  unfolding generateWithRetry_def by (rule generateWithRetry_loop_waited) simp_all


lemma analyzeDocumentContent_waited:
  assumes "key \<noteq> []"
  shows "\<exists>n. n \<le> 2 \<and>
           snd (analyzeDocumentContent (Some key) model jsonParse uuids pages mimeType)
             = map (\<lambda>i. 1000 * 2 ^ i) [0..<n]"
proof -
  let ?call = "generateWithRetry (model \<lparr>req_pages = pages, req_mimeType = mimeType\<rparr>) 3"
  obtain n where n: "n \<le> 3 - 1" "snd ?call = map (\<lambda>i. 1000 * 2 ^ i) [0..<n]"
    using generateWithRetry_waited [of 3] by blast
  have "snd (analyzeDocumentContent (Some key) model jsonParse uuids pages mimeType) = snd ?call"
    using assms by (simp add: analyzeDocumentContent_def split: prod.splits sum.splits)
  then show ?thesis using n by auto
qed

lemma analyzeDocumentContent_caught:
  assumes "key \<noteq> []"
    and "generateWithRetry (model \<lparr>req_pages = pages, req_mimeType = mimeType\<rparr>) 3 = (out, w)"
  shows "analyzeDocumentContent (Some key) model jsonParse uuids pages mimeType =
           (case out of
              Inl e \<Rightarrow> (Inr [], w)
            | Inr resp \<Rightarrow>
                (case parseResponse jsonParse uuids resp of
                   Inl e \<Rightarrow> (Inr [], w)
                 | Inr records \<Rightarrow> (Inr records, w)))"
  using assms by (simp add: analyzeDocumentContent_def split: sum.splits)

lemma analyzeDocumentContent_single_caught:
  assumes "key \<noteq> []"
  shows "analyzeDocumentContent_single (Some key) call jsonParse uuids content mimeType =
           (case call \<lparr>req_pages = [content], req_mimeType = mimeType\<rparr> 0 of
              Inl e \<Rightarrow> if isNotFound e then Inl modelNotFound else Inr []
            | Inr r \<Rightarrow>
                (case parseResponse jsonParse uuids (Some r) of
                   Inl e \<Rightarrow> if isNotFound e then Inl modelNotFound else Inr []
                 | Inr records \<Rightarrow> Inr records))"
  using assms by (simp add: analyzeDocumentContent_single_def split: sum.splits)

text \<open>
  C2, as amended. A failure whose message contains 429 or 503 is retried: when the
  attempts before attempt \<open>k\<close> have all failed in this way, the helper has waited
  \<open>1000 * 2 ^ i\<close> milliseconds after each attempt \<open>i < k\<close>; a success at attempt \<open>k\<close>
  is returned, and a failure there that is not transient, or that is the failure of the
  last attempt, is thrown by the helper at once. The batched client calls the helper
  with three attempts, so it waits at most twice. It passes no failure on: with a key,
  it answers a failure of the helper and a failure of the parsing alike with the empty
  list, after the delays the helper has waited, and a parsed response with its records;
  without a key it throws its missing-key error. The single-call client does not
  retry: with a key, its answer is fixed by the first attempt alone. A failure of that
  attempt or of the parsing whose message contains 404 or Not Found is thrown as the
  model-not-found error, every other failure is answered with the empty list, and a
  parsed response with its records; without a key it throws its missing-key error.
\<close>

theorem retry_and_recovery_policy:
  assumes "k < retries"
    and "\<forall>j<k. \<exists>e. generateContent j = Inl e \<and> isRetryable e"
    and "key \<noteq> []"
  shows "(\<forall>r. generateContent k = Inr r \<longrightarrow>
            generateWithRetry generateContent retries
              = (Inr (Some r), map (\<lambda>i. 1000 * 2 ^ i) [0..<k])) \<and>
         (\<forall>e. generateContent k = Inl e \<and> (\<not> isRetryable e \<or> k = retries - 1) \<longrightarrow>
            generateWithRetry generateContent retries
              = (Inl e, map (\<lambda>i. 1000 * 2 ^ i) [0..<k])) \<and>
         (\<exists>n. n \<le> 2 \<and>
            snd (analyzeDocumentContent (Some key) model jsonParse uuids pages mimeType)
              = map (\<lambda>i. 1000 * 2 ^ i) [0..<n]) \<and>
         (\<forall>e w. generateWithRetry (model \<lparr>req_pages = pages, req_mimeType = mimeType\<rparr>) 3 = (Inl e, w)
            \<longrightarrow> analyzeDocumentContent (Some key) model jsonParse uuids pages mimeType = (Inr [], w)) \<and>
         (\<forall>resp w e.
            generateWithRetry (model \<lparr>req_pages = pages, req_mimeType = mimeType\<rparr>) 3 = (Inr resp, w) \<and>
            parseResponse jsonParse uuids resp = Inl e
            \<longrightarrow> analyzeDocumentContent (Some key) model jsonParse uuids pages mimeType = (Inr [], w)) \<and>
         (\<forall>resp w records.
            generateWithRetry (model \<lparr>req_pages = pages, req_mimeType = mimeType\<rparr>) 3 = (Inr resp, w) \<and>
            parseResponse jsonParse uuids resp = Inr records
            \<longrightarrow> analyzeDocumentContent (Some key) model jsonParse uuids pages mimeType
                  = (Inr records, w)) \<and>
         analyzeDocumentContent None model jsonParse uuids pages mimeType = (Inl apiKeyMissing, []) \<and>
         analyzeDocumentContent (Some []) model jsonParse uuids pages mimeType = (Inl apiKeyMissing, []) \<and>
         (\<forall>e. call \<lparr>req_pages = [content], req_mimeType = mimeType\<rparr> 0 = Inl e
            \<longrightarrow> analyzeDocumentContent_single (Some key) call jsonParse uuids content mimeType
                  = (if isNotFound e then Inl modelNotFound else Inr [])) \<and>
         (\<forall>r e. call \<lparr>req_pages = [content], req_mimeType = mimeType\<rparr> 0 = Inr r \<and>
                 parseResponse jsonParse uuids (Some r) = Inl e
            \<longrightarrow> analyzeDocumentContent_single (Some key) call jsonParse uuids content mimeType
                  = (if isNotFound e then Inl modelNotFound else Inr [])) \<and>
         (\<forall>r records. call \<lparr>req_pages = [content], req_mimeType = mimeType\<rparr> 0 = Inr r \<and>
                 parseResponse jsonParse uuids (Some r) = Inr records
            \<longrightarrow> analyzeDocumentContent_single (Some key) call jsonParse uuids content mimeType
                  = Inr records) \<and>
         (\<forall>call'. call' \<lparr>req_pages = [content], req_mimeType = mimeType\<rparr> 0
                    = call \<lparr>req_pages = [content], req_mimeType = mimeType\<rparr> 0
            \<longrightarrow> analyzeDocumentContent_single (Some key) call' jsonParse uuids content mimeType
                  = analyzeDocumentContent_single (Some key) call jsonParse uuids content mimeType) \<and>
         analyzeDocumentContent_single None call jsonParse uuids content mimeType
           = Inl apiKeyMissing_single \<and>
         analyzeDocumentContent_single (Some []) call jsonParse uuids content mimeType
           = Inl apiKeyMissing_single"
proof (intro conjI allI impI)
  fix r assume "generateContent k = Inr r"
  then show "generateWithRetry generateContent retries
               = (Inr (Some r), map (\<lambda>i. 1000 * 2 ^ i) [0..<k])"
    using generateWithRetry_at [OF assms(1,2)] by simp
next
  fix e assume "generateContent k = Inl e \<and> (\<not> isRetryable e \<or> k = retries - 1)"
  then show "generateWithRetry generateContent retries
               = (Inl e, map (\<lambda>i. 1000 * 2 ^ i) [0..<k])"
    using generateWithRetry_at [OF assms(1,2)] by auto
next
  show "\<exists>n. n \<le> 2 \<and>
            snd (analyzeDocumentContent (Some key) model jsonParse uuids pages mimeType)
              = map (\<lambda>i. 1000 * 2 ^ i) [0..<n]"
    by (rule analyzeDocumentContent_waited [OF assms(3)])
next
  fix e w
  assume "generateWithRetry (model \<lparr>req_pages = pages, req_mimeType = mimeType\<rparr>) 3 = (Inl e, w)"
  then show "analyzeDocumentContent (Some key) model jsonParse uuids pages mimeType = (Inr [], w)"
    using analyzeDocumentContent_caught [OF assms(3)] by simp
next
  fix resp w e
  assume "generateWithRetry (model \<lparr>req_pages = pages, req_mimeType = mimeType\<rparr>) 3 = (Inr resp, w) \<and>
          parseResponse jsonParse uuids resp = Inl e"
  then show "analyzeDocumentContent (Some key) model jsonParse uuids pages mimeType = (Inr [], w)"
    using analyzeDocumentContent_caught [OF assms(3), of model pages mimeType "Inr resp" w jsonParse uuids]
    by simp
next
  fix resp w records
  assume "generateWithRetry (model \<lparr>req_pages = pages, req_mimeType = mimeType\<rparr>) 3 = (Inr resp, w) \<and>
          parseResponse jsonParse uuids resp = Inr records"
  then show "analyzeDocumentContent (Some key) model jsonParse uuids pages mimeType = (Inr records, w)"
    using analyzeDocumentContent_caught [OF assms(3), of model pages mimeType "Inr resp" w jsonParse uuids]
    by simp
next
  show "analyzeDocumentContent None model jsonParse uuids pages mimeType = (Inl apiKeyMissing, [])"
    by (simp add: analyzeDocumentContent_def)
next
  show "analyzeDocumentContent (Some []) model jsonParse uuids pages mimeType = (Inl apiKeyMissing, [])"
    by (simp add: analyzeDocumentContent_def)
next
  fix e assume "call \<lparr>req_pages = [content], req_mimeType = mimeType\<rparr> 0 = Inl e"
  then show "analyzeDocumentContent_single (Some key) call jsonParse uuids content mimeType
               = (if isNotFound e then Inl modelNotFound else Inr [])"
    by (simp add: analyzeDocumentContent_single_caught [OF assms(3)])
next
  fix r e
  assume "call \<lparr>req_pages = [content], req_mimeType = mimeType\<rparr> 0 = Inr r \<and>
          parseResponse jsonParse uuids (Some r) = Inl e"
  then show "analyzeDocumentContent_single (Some key) call jsonParse uuids content mimeType
               = (if isNotFound e then Inl modelNotFound else Inr [])"
    by (simp add: analyzeDocumentContent_single_caught [OF assms(3)])
next
  fix r records
  assume "call \<lparr>req_pages = [content], req_mimeType = mimeType\<rparr> 0 = Inr r \<and>
          parseResponse jsonParse uuids (Some r) = Inr records"
  then show "analyzeDocumentContent_single (Some key) call jsonParse uuids content mimeType
               = Inr records"
    by (simp add: analyzeDocumentContent_single_caught [OF assms(3)])
next
  fix call' :: "request \<Rightarrow> nat \<Rightarrow> js_error + response"
  assume "call' \<lparr>req_pages = [content], req_mimeType = mimeType\<rparr> 0
            = call \<lparr>req_pages = [content], req_mimeType = mimeType\<rparr> 0"
  then show "analyzeDocumentContent_single (Some key) call' jsonParse uuids content mimeType
               = analyzeDocumentContent_single (Some key) call jsonParse uuids content mimeType"
    by (simp add: analyzeDocumentContent_single_caught [OF assms(3)])
next
  show "analyzeDocumentContent_single None call jsonParse uuids content mimeType
          = Inl apiKeyMissing_single"
    by (simp add: analyzeDocumentContent_single_def)
next
  show "analyzeDocumentContent_single (Some []) call jsonParse uuids content mimeType
          = Inl apiKeyMissing_single"
    by (simp add: analyzeDocumentContent_single_def)
qed

lemma parseResponse_sample:
  "parseResponse sample_parse_one sample_uuids (Some \<lparr>text_of = Some ''[item]''\<rparr>)
     = Inr (postProcess sample_uuids [sample_item])"
  by (simp add: parseResponse_def sample_parse_one_def)

theorem retry_and_recovery_policy_witness:
  "generateWithRetry (sample_busy_then_broken \<lparr>req_pages = [''page''], req_mimeType = ''image/jpeg''\<rparr>) 3
     = (Inl (JsError (Some ''500 Internal Server Error'')), [1000]) \<and>
   analyzeDocumentContent (Some ''key'') sample_busy_then_broken sample_parse sample_uuids
     [''page''] ''image/jpeg'' = (Inr [], [1000]) \<and>
   analyzeDocumentContent (Some ''key'') sample_busy_then_ok sample_parse_one sample_uuids
     [''page''] ''image/jpeg'' = (Inr (postProcess sample_uuids [sample_item]), [1000]) \<and>
   analyzeDocumentContent_single (Some ''key'') sample_busy_then_ok sample_parse_one sample_uuids
     ''page'' ''image/jpeg'' = Inr []"
proof -
  let ?req = "\<lparr>req_pages = [''page''], req_mimeType = ''image/jpeg''\<rparr>"
  let ?e503 = "JsError (Some ''503 Service Unavailable'')"
  let ?e500 = "JsError (Some ''500 Internal Server Error'')"
  have k: "(1::nat) < 3" by simp
  have key: "''key'' \<noteq> []" by simp
  have busy: "\<forall>j<1. \<exists>e. sample_busy_then_broken ?req j = Inl e \<and> isRetryable e"
    by (simp add: sample_busy_then_broken_def isRetryable_def)
  have busy': "\<forall>j<1. \<exists>e. sample_busy_then_ok ?req j = Inl e \<and> isRetryable e"
    by (simp add: sample_busy_then_ok_def isRetryable_def)
  note t = retry_and_recovery_policy [OF k busy key,
      of sample_busy_then_broken sample_parse sample_uuids "[''page'']" "''image/jpeg''"
         sample_busy_then_ok "''page''"]
  note u = retry_and_recovery_policy [OF k busy' key,
      of sample_busy_then_ok sample_parse_one sample_uuids "[''page'']" "''image/jpeg''"
         sample_busy_then_ok "''page''"]
  have broken: "sample_busy_then_broken ?req 1 = Inl ?e500 \<and> (\<not> isRetryable ?e500 \<or> (1::nat) = 3 - 1)"
    by (simp add: sample_busy_then_broken_def isRetryable_def)
  have "generateWithRetry (sample_busy_then_broken ?req) 3
          = (Inl ?e500, map (\<lambda>i. 1000 * 2 ^ i) [0..<1])"
    using t [THEN conjunct2, THEN conjunct1, rule_format, OF broken] .
  then have w1: "generateWithRetry (sample_busy_then_broken ?req) 3 = (Inl ?e500, [1000])"
    by simp
  have w2: "analyzeDocumentContent (Some ''key'') sample_busy_then_broken sample_parse sample_uuids
              [''page''] ''image/jpeg'' = (Inr [], [1000])"
    using t [THEN conjunct2, THEN conjunct2, THEN conjunct2, THEN conjunct1, rule_format, OF w1] .
  have ok: "sample_busy_then_ok ?req 1 = Inr \<lparr>text_of = Some ''[item]''\<rparr>"
    by (simp add: sample_busy_then_ok_def)
  have "generateWithRetry (sample_busy_then_ok ?req) 3
          = (Inr (Some \<lparr>text_of = Some ''[item]''\<rparr>), map (\<lambda>i. 1000 * 2 ^ i) [0..<1])"
    using u [THEN conjunct1, rule_format, OF ok] .
  then have "generateWithRetry (sample_busy_then_ok ?req) 3
          = (Inr (Some \<lparr>text_of = Some ''[item]''\<rparr>), [1000]) \<and>
        parseResponse sample_parse_one sample_uuids (Some \<lparr>text_of = Some ''[item]''\<rparr>)
          = Inr (postProcess sample_uuids [sample_item])"
    by (simp add: parseResponse_sample)
  then have w3: "analyzeDocumentContent (Some ''key'') sample_busy_then_ok sample_parse_one sample_uuids
              [''page''] ''image/jpeg'' = (Inr (postProcess sample_uuids [sample_item]), [1000])"
    by (rule u [THEN conjunct2, THEN conjunct2, THEN conjunct2, THEN conjunct2, THEN conjunct2,
                THEN conjunct1, rule_format])
  have first: "sample_busy_then_ok ?req 0 = Inl ?e503" by (simp add: sample_busy_then_ok_def)
  have "\<not> isNotFound ?e503" by (simp add: isNotFound_def)
  then have w4: "analyzeDocumentContent_single (Some ''key'') sample_busy_then_ok sample_parse_one
              sample_uuids ''page'' ''image/jpeg'' = Inr []"
    using u [THEN conjunct2, THEN conjunct2, THEN conjunct2, THEN conjunct2, THEN conjunct2,
             THEN conjunct2, THEN conjunct2, THEN conjunct2, THEN conjunct1, rule_format, OF first]
    by simp
  show ?thesis using w1 w2 w3 w4 by blast
qed

text \<open>
  The claim C2 as stated fails on both clients. A failure which is not transient does
  not reach the caller of the batched client: a model that answers every attempt with
  an error of message \<open>500 Internal Server Error\<close> makes it return the empty list, a
  success value. A transient failure is not retried by the single-call client: for a
  model that is overloaded at the first attempt and would answer at the second, it
  returns the empty list.
\<close>

theorem analyzeDocumentContent_swallows_failure:
  "sample_broken \<lparr>req_pages = [''page''], req_mimeType = ''image/jpeg''\<rparr> 0
     = Inl (JsError (Some ''500 Internal Server Error'')) \<and>
   \<not> isRetryable (JsError (Some ''500 Internal Server Error'')) \<and>
   analyzeDocumentContent (Some ''key'') sample_broken sample_parse sample_uuids
     [''page''] ''image/jpeg'' = (Inr [], []) \<and>
   sample_busy_then_ok \<lparr>req_pages = [''page''], req_mimeType = ''image/jpeg''\<rparr> 0
     = Inl (JsError (Some ''503 Service Unavailable'')) \<and>
   isRetryable (JsError (Some ''503 Service Unavailable'')) \<and>
   sample_busy_then_ok \<lparr>req_pages = [''page''], req_mimeType = ''image/jpeg''\<rparr> 1
     = Inr \<lparr>text_of = Some ''[item]''\<rparr> \<and>
   analyzeDocumentContent_single (Some ''key'') sample_busy_then_ok sample_parse_one sample_uuids
     ''page'' ''image/jpeg'' = Inr []"
proof -
  have "generateWithRetry (sample_broken \<lparr>req_pages = [''page''], req_mimeType = ''image/jpeg''\<rparr>) 3
          = (Inl (JsError (Some ''500 Internal Server Error'')), [])"
    unfolding generateWithRetry_def
    by (subst generateWithRetry_loop.simps) (simp add: sample_broken_def isRetryable_def)
  then have "analyzeDocumentContent (Some ''key'') sample_broken sample_parse sample_uuids
     [''page''] ''image/jpeg'' = (Inr [], [])"
    by (simp add: analyzeDocumentContent_def)
  moreover have "analyzeDocumentContent_single (Some ''key'') sample_busy_then_ok sample_parse_one
      sample_uuids ''page'' ''image/jpeg'' = Inr []"
    by (simp add: analyzeDocumentContent_single_def sample_busy_then_ok_def isNotFound_def)
  ultimately show ?thesis
    by (simp add: sample_broken_def sample_busy_then_ok_def isRetryable_def)
qed

section \<open>Properties of the orchestrator\<close>

subsection \<open>Cancellation\<close>

lemma processGroups_loop_stopped:
  "abortRef st \<Longrightarrow> processGroups_loop analyze abortAfter groups i st = (None, st)"
  by (subst processGroups_loop.simps) simp

lemma processGroups_loop_cancelled:
  assumes "i < length groups" "\<not> abortRef st" "abortAfter i"
  shows "snd (processGroups_loop analyze abortAfter groups i st)
           = st\<lparr>dispatched := dispatched st @ slice groups i (i + CONCURRENT_REQUESTS),
                abortRef := True\<rparr>"
  using assms by (subst processGroups_loop.simps) (simp add: Let_def split: sum.splits)

lemma processGroups_loop_extends:
  "\<exists>rs ds. results (snd (processGroups_loop analyze abortAfter groups i st)) = results st @ rs \<and>
           dispatched (snd (processGroups_loop analyze abortAfter groups i st)) = dispatched st @ ds"
proof (induction analyze abortAfter groups i st rule: processGroups_loop.induct)
  case (1 analyze abortAfter groups i st)
  let ?batch = "slice groups i (i + CONCURRENT_REQUESTS)"
  let ?st1 = "st\<lparr>dispatched := dispatched st @ ?batch, abortRef := abortAfter i\<rparr>"
  show ?case
  proof (cases "i < length groups \<and> \<not> abortRef st")
    case False
    then show ?thesis by (subst (1 2) processGroups_loop.simps) auto
  next
    case True
    show ?thesis
    proof (cases "promiseAll (map analyze ?batch)")
      case (Inl e)
      then show ?thesis using True
        by (subst (1 2) processGroups_loop.simps) (simp add: Let_def)
    next
      case (Inr batchResults)
      show ?thesis
      proof (cases "abortAfter i")
        case True
        then show ?thesis using \<open>i < length groups \<and> \<not> abortRef st\<close> Inr
          by (subst (1 2) processGroups_loop.simps) (simp add: Let_def)
      next
        case False
        let ?flat = "concat batchResults"
        let ?st2 = "if length ?flat > 0 then ?st1\<lparr>results := results ?st1 @ ?flat\<rparr> else ?st1"
        let ?st3 = "?st2\<lparr>completedGroups := completedGroups ?st2 + length ?batch\<rparr>"
        have step: "processGroups_loop analyze abortAfter groups i st
                      = processGroups_loop analyze abortAfter groups (i + CONCURRENT_REQUESTS) ?st3"
          using True Inr False by (subst processGroups_loop.simps) (simp add: Let_def)
        have "\<exists>rs ds. results (snd (processGroups_loop analyze abortAfter groups (i + CONCURRENT_REQUESTS) ?st3))
                         = results ?st3 @ rs \<and>
                       dispatched (snd (processGroups_loop analyze abortAfter groups (i + CONCURRENT_REQUESTS) ?st3))
                         = dispatched ?st3 @ ds"
        proof (rule "1.IH" [OF _ _ refl refl Inr _ refl refl])
          show "i < length groups" "\<not> abortRef st" using True by simp_all
          show "\<not> abortRef ?st1" using False by simp
        qed
        then obtain rs ds where
          "results (snd (processGroups_loop analyze abortAfter groups i st)) = results ?st3 @ rs"
          "dispatched (snd (processGroups_loop analyze abortAfter groups i st)) = dispatched ?st3 @ ds"
          unfolding step by blast
        then have "results (snd (processGroups_loop analyze abortAfter groups i st))
                     = results st @ ((if length ?flat > 0 then ?flat else []) @ rs)"
          and "dispatched (snd (processGroups_loop analyze abortAfter groups i st))
                     = dispatched st @ (?batch @ ds)"
          by (simp_all split: if_splits)
        then show ?thesis by blast
      qed
    qed
  qed
qed

text \<open>
  C5. When the cancellation flag is set at a wave boundary, the loop of
  \<^verbatim>\<open>processGroups\<close> returns at once: no group is dispatched and the state is as it was.
  When the flag is set while a wave is awaited, the groups of that wave are the last
  ones dispatched and the store is as before the wave. In every run the final store
  and the final list of dispatched groups extend the ones the run started from, so no
  record is ever removed; \<^verbatim>\<open>handleCancel\<close> sets the flag and leaves the store alone.
\<close>

theorem processGroups_cancellation:
  "(abortRef st \<longrightarrow> processGroups_loop analyze abortAfter groups i st = (None, st)) \<and>
   (i < length groups \<and> \<not> abortRef st \<and> abortAfter i \<longrightarrow>
      snd (processGroups_loop analyze abortAfter groups i st)
        = st\<lparr>dispatched := dispatched st @ slice groups i (i + CONCURRENT_REQUESTS),
             abortRef := True\<rparr>) \<and>
   (\<exists>rs ds.
      results (snd (processGroups_loop analyze abortAfter groups i st)) = results st @ rs \<and>
      dispatched (snd (processGroups_loop analyze abortAfter groups i st)) = dispatched st @ ds) \<and>
   results (handleCancel st) = results st \<and> abortRef (handleCancel st)"
  using processGroups_loop_stopped [of st analyze abortAfter groups i]
    processGroups_loop_cancelled [of i groups st abortAfter analyze]
    processGroups_loop_extends [of analyze abortAfter groups i st]
  by (simp add: handleCancel_def)

theorem processGroups_cancellation_witness:
  "snd (processGroups_loop sample_analyze cancel_in_first_wave sample_groups 0 sample_state)
     = sample_state\<lparr>dispatched := [1, 2, 3], abortRef := True\<rparr> \<and>
   processGroups_loop sample_analyze cancel_in_first_wave sample_groups 3 (handleCancel sample_state)
     = (None, handleCancel sample_state) \<and>
   results (handleCancel sample_state) = [sample_r1]"
proof -
  note a = processGroups_cancellation
    [of sample_state sample_analyze cancel_in_first_wave sample_groups 0]
  note b = processGroups_cancellation
    [of "handleCancel sample_state" sample_analyze cancel_in_first_wave sample_groups 3]
  have pre: "0 < length sample_groups \<and> \<not> abortRef sample_state \<and> cancel_in_first_wave 0"
    by (simp add: sample_groups_def sample_state_def cancel_in_first_wave_def)
  have "snd (processGroups_loop sample_analyze cancel_in_first_wave sample_groups 0 sample_state)
     = sample_state\<lparr>dispatched := dispatched sample_state @ slice sample_groups 0 (0 + CONCURRENT_REQUESTS),
                     abortRef := True\<rparr>"
    using a [THEN conjunct2, THEN conjunct1, rule_format, OF pre] .
  moreover have "dispatched sample_state @ slice sample_groups 0 (0 + CONCURRENT_REQUESTS) = [1, 2, 3]"
    by (simp add: sample_state_def sample_groups_def slice_def CONCURRENT_REQUESTS_def)
  moreover have "abortRef (handleCancel sample_state)" by (simp add: handleCancel_def)
  then have "processGroups_loop sample_analyze cancel_in_first_wave sample_groups 3 (handleCancel sample_state)
     = (None, handleCancel sample_state)"
    using b [THEN conjunct1] by blast
  moreover have "results (handleCancel sample_state) = [sample_r1]"
    using a [THEN conjunct2, THEN conjunct2, THEN conjunct2, THEN conjunct1]
    by (simp add: sample_state_def)
  ultimately show ?thesis by simp
qed

subsection \<open>Local recovery\<close>

lemma handleProcess_loop_recovers:
  assumes "\<forall>u \<in> set units. \<forall>e. analyze u = Inl e \<longrightarrow> isCritical e = Inr False"
  shows "handleProcess_loop analyze units acc =
           (Complete, acc @ concat (map (\<lambda>u. case analyze u of Inr d \<Rightarrow> d | Inl e \<Rightarrow> []) units))"
  using assms
proof (induction units arbitrary: acc)
  case Nil
  then show ?case by simp
next
  case (Cons u us)
  then have rest: "\<And>acc. handleProcess_loop analyze us acc =
      (Complete, acc @ concat (map (\<lambda>u. case analyze u of Inr d \<Rightarrow> d | Inl e \<Rightarrow> []) us))"
    by simp
  show ?case
  proof (cases "analyze u")
    case (Inr pageData)
    then show ?thesis by (simp add: rest)
  next
    case (Inl e)
    then have "isCritical e = Inr False" using Cons.prems by simp
    with Inl show ?thesis by (simp add: rest)
  qed
qed

lemma length_concat_contributions:
  "length (concat (map (\<lambda>u. case analyze u of Inr d \<Rightarrow> d | Inl e \<Rightarrow> []) units))
     = (\<Sum>u\<leftarrow>units. case analyze u of Inr d \<Rightarrow> length d | Inl e \<Rightarrow> 0)"
  by (induction units) (auto split: sum.splits)

text \<open>
  C6. When every unit that fails does so with an error that the loop does not class
  as critical, the sequential run goes through all units and ends as complete; a
  failing unit adds nothing, and the store holds the records of the other units in
  order, so the final count is the sum of their counts.
\<close>

theorem handleProcess_partial_failure:
  assumes "\<forall>u \<in> set units. \<forall>e. analyze u = Inl e \<longrightarrow> isCritical e = Inr False"
  shows "handleProcess analyze units =
           (Complete, concat (map (\<lambda>u. case analyze u of Inr d \<Rightarrow> d | Inl e \<Rightarrow> []) units)) \<and>
         length (snd (handleProcess analyze units))
           = (\<Sum>u\<leftarrow>units. case analyze u of Inr d \<Rightarrow> length d | Inl e \<Rightarrow> 0)"
  using handleProcess_loop_recovers [OF assms, of "[]"]
  by (simp add: handleProcess_def length_concat_contributions)

theorem handleProcess_partial_failure_witness:
  "sample_flaky 2 = Inl (JsError (Some ''500 Internal Server Error'')) \<and>
   fst (handleProcess sample_flaky [1, 2, 3, 4, 5]) = Complete \<and>
   length (snd (handleProcess sample_flaky [1, 2, 3, 4, 5])) = 1 + 0 + 3 + 4 + 5"
proof -
  have ok: "\<forall>u \<in> set [1, 2, 3, 4, 5]. \<forall>e. sample_flaky u = Inl e \<longrightarrow> isCritical e = Inr False"
    by (simp add: sample_flaky_def isCritical_def)
  note t = handleProcess_partial_failure [OF ok]
  have sum: "(\<Sum>u\<leftarrow>[1, 2, 3, 4, 5]. case sample_flaky u of Inr d \<Rightarrow> length d | Inl e \<Rightarrow> 0) = 1 + 0 + 3 + 4 + 5"
    by (simp add: sample_flaky_def)
  have "fst (handleProcess sample_flaky [1, 2, 3, 4, 5]) = Complete"
    using t [THEN conjunct1] by simp
  moreover have "length (snd (handleProcess sample_flaky [1, 2, 3, 4, 5])) = 1 + 0 + 3 + 4 + 5"
    using t [THEN conjunct2] sum by simp
  moreover have "sample_flaky 2 = Inl (JsError (Some ''500 Internal Server Error''))"
    by (simp add: sample_flaky_def)
  ultimately show ?thesis by blast
qed

section \<open>Properties of the rasterization\<close>

lemma sequentialMap_all_Inr:
  assumes "\<forall>x \<in> set xs. fn x = Inr (g x)"
  shows "sequentialMap fn xs = Inr (map g xs)"
  using assms by (induction xs) auto

lemma filterNonEmpty_Some:
  "filterNonEmpty (map (\<lambda>p. Some (payload p)) ps)
     = Inr (map payload (filter (\<lambda>p. payload p \<noteq> []) ps))"
  by (induction ps) auto

lemma pageIndices: "map (\<lambda>i. i + 1) [0..<n] = [1..<n + 1]"
  using map_Suc_upt [of 0 n] by simp

text \<open>
  C7, as amended. When no page of an \<open>N\<close>-page document is rejected, so that
  \<^verbatim>\<open>renderPage\<close> returns a string \<open>payload p\<close> for every page \<open>p\<close>, the rasterization
  returns the non-empty payloads in page order, one for each page whose payload is not
  empty, hence at most \<open>N\<close> images. A page without a drawing surface has the empty
  payload: it is left out and the document is not aborted.
\<close>

theorem processPdfToImages_pages:
  assumes "\<forall>p \<in> {1..numPages pdf}. renderPage pdf p = Inr (Some (payload p))"
  shows "processPdfToImages (Inr pdf)
           = Some (Inr (map payload (filter (\<lambda>p. payload p \<noteq> []) [1..<numPages pdf + 1]))) \<and>
         length (map payload (filter (\<lambda>p. payload p \<noteq> []) [1..<numPages pdf + 1])) \<le> numPages pdf \<and>
         (\<forall>p \<in> {1..numPages pdf}. page_outcome_of pdf p = NoContext \<longrightarrow> payload p = [])"
proof (intro conjI ballI impI)
  define pages where "pages = map (\<lambda>i. i + 1) [0..<numPages pdf]"
  have pages: "pages = [1..<numPages pdf + 1]" unfolding pages_def by (rule pageIndices)
  have "\<forall>p \<in> set pages. renderPage pdf p = Inr ((\<lambda>p. Some (payload p)) p)"
    unfolding pages using assms by auto
  then have "sequentialMap (renderPage pdf) pages = Inr (map (\<lambda>p. Some (payload p)) pages)"
    by (rule sequentialMap_all_Inr)
  moreover have "batchProcess pages 4 (renderPage pdf) = Some (sequentialMap (renderPage pdf) pages)"
    using batchProcess_loop_eq [of 4 pages "renderPage pdf" 0 "[]"]
    by (simp add: batchProcess_def split: sum.splits)
  ultimately have "batchProcess pages 4 (renderPage pdf) = Some (Inr (map (\<lambda>p. Some (payload p)) pages))"
    by simp
  then have "processPdfToImages (Inr pdf) = Some (filterNonEmpty (map (\<lambda>p. Some (payload p)) pages))"
    by (simp add: processPdfToImages_def pages_def)
  then show "processPdfToImages (Inr pdf)
           = Some (Inr (map payload (filter (\<lambda>p. payload p \<noteq> []) [1..<numPages pdf + 1])))"
    unfolding filterNonEmpty_Some pages .
next
  have "length (filter (\<lambda>p. payload p \<noteq> []) [1..<numPages pdf + 1]) \<le> length [1..<numPages pdf + 1]"
    by (rule length_filter_le)
  also have "length [1..<numPages pdf + 1] = numPages pdf" by (simp only: length_upt add_diff_cancel_right')
  finally show "length (map payload (filter (\<lambda>p. payload p \<noteq> []) [1..<numPages pdf + 1])) \<le> numPages pdf"
    by (simp only: length_map)
next
  fix p assume "p \<in> {1..numPages pdf}" "page_outcome_of pdf p = NoContext"
  then have "renderPage pdf p = Inr (Some (payload p))" and "renderPage pdf p = Inr (Some [])"
    using assms by (blast, simp add: renderPage_def)
  then show "payload p = []" by simp
qed

lemma split_sample_urls:
  "split_js ''data:image/jpeg;base64,AAAA'' '','' = [''data:image/jpeg;base64'', ''AAAA'']"
  "split_js ''data:image/jpeg;base64,BBBB'' '','' = [''data:image/jpeg;base64'', ''BBBB'']"
  "split_js ''data:,'' '','' = [''data:'', []]"
  by code_simp+

lemma renderPage_sample: "renderPage sample_pdf p = Inr (Some (sample_payload p))"
  by (simp add: renderPage_def sample_pdf_def sample_payload_def split_sample_urls)

theorem processPdfToImages_pages_witness:
  "page_outcome_of sample_pdf 2 = NoContext \<and>
   processPdfToImages (Inr sample_pdf) = Some (Inr [''AAAA'', ''BBBB''])"
proof -
  have r: "\<forall>p \<in> {1..numPages sample_pdf}. renderPage sample_pdf p = Inr (Some (sample_payload p))"
    by (simp add: renderPage_sample)
  note t = processPdfToImages_pages [OF r]
  have "[1..<numPages sample_pdf + 1] = [1, 2, 3]" by (simp add: sample_pdf_def upt_rec)
  then have "map sample_payload (filter (\<lambda>p. sample_payload p \<noteq> []) [1..<numPages sample_pdf + 1])
               = [''AAAA'', ''BBBB'']"
    by (simp add: sample_payload_def)
  then have "processPdfToImages (Inr sample_pdf) = Some (Inr [''AAAA'', ''BBBB''])"
    using t [THEN conjunct1] by simp
  moreover have "page_outcome_of sample_pdf 2 = NoContext" by (simp add: sample_pdf_def)
  ultimately show ?thesis by blast
qed

text \<open>
  The claim C7 as stated, that the only pages missing are those without a drawing
  surface, fails: a page whose surface is acquired but whose canvas has no pixels is
  encoded to the data URL \<open>data:,\<close>, whose payload is empty, and is left out as well.
\<close>

theorem processPdfToImages_drops_blank_page:
  "numPages sample_blank_pdf = 1 \<and>
   page_outcome_of sample_blank_pdf 1 = DataURL ''data:,'' \<and>
   processPdfToImages (Inr sample_blank_pdf) = Some (Inr [])"
proof -
  have "renderPage sample_blank_pdf 1 = Inr (Some [])"
    by (simp add: renderPage_def sample_blank_pdf_def split_sample_urls)
  then have "batchProcess [1] 4 (renderPage sample_blank_pdf) = Some (Inr [Some []])"
    unfolding batchProcess_def
    by (subst batchProcess_loop.simps, simp add: slice_def, subst batchProcess_loop.simps, simp)
  then show ?thesis
    by (simp add: processPdfToImages_def sample_blank_pdf_def)
qed

end
